theory Spec2Isabelle
  imports Main
begin

section \<open>The restaurant receptionist (semSharedMemReceptionist.c)\<close>

text \<open>
  The receptionist process shares one memory block and one semaphore set with the
  groups. This theory embeds the three receptionist operations \<open>waitForGroup\<close>,
  \<open>provideTableOrWaitingRoom\<close> and \<open>receivePayment\<close>, and the two decision
  functions \<open>decideTableOrWait\<close> and \<open>decideNextGroup\<close>, as functions on an
  explicit state. The other processes are not part of the model: an operation is
  run from the state it finds, and a semaphore that would make it sleep is a
  result of its own.
\<close>

subsection \<open>Data\<close>

text \<open>The constants for \<open>groupRecord\<close>, as the source defines them.\<close>

definition TOARRIVE :: int where "TOARRIVE = 0"
definition WAIT :: int where "WAIT = 1"
definition ATTABLE :: int where "ATTABLE = 2"
definition DONE :: int where "DONE = 3"

text \<open>
  Modelled from the spec: the header probConst.h is not among the sources; the
  receptionist status written to \<open>sh->fSt.st.receptionistStat\<close> is one of three
  distinct values (section 3, CoordinatorStatus).
\<close>

datatype rstat = WAIT_FOR_REQUEST | ASSIGNTABLE | RECVPAY

text \<open>
  A C int is an integer here. Group and table indices are compared and stored,
  never computed with. The counter \<open>groupsWaiting\<close> is incremented and
  decremented: the integer operation is the machine one as long as the result is
  an int, that is for an increment below \<open>INT_MAX\<close> and a decrement above
  \<open>INT_MIN\<close>. The postconditions of \<open>provideTableOrWaitingRoom\<close> and
  \<open>receivePayment\<close> are stated under that bound; between operations of a run of
  the system the counter is the number of waiting groups. The limits are those of
  a 32-bit int.
\<close>

definition INT_MAX :: int where "INT_MAX = 2147483647"
definition INT_MIN :: int where "INT_MIN = - 2147483648"

text \<open>The request slot: two C ints; \<open>-1\<close> in both is the empty slot.\<close>

record request =
  reqType :: int
  reqGroup :: int

text \<open>
  The part of the shared region that \<open>saveState\<close> logs (\<open>sh->fSt\<close>). The arrays
  are lists; their declared size is the length of the list.
\<close>

record full_stat =
  nGroups :: int
  receptionistStat :: rstat
  assignedTable :: "int list"
  groupsWaiting :: int
  receptionistRequest :: request

text \<open>
  The semaphores the receptionist touches. \<open>sh->waitForTable[n]\<close> and
  \<open>sh->tableDone[t]\<close> are one semaphore for each group and each table.
\<close>

datatype gate =
  Mutex
  | ReceptionistReq
  | ReceptionistRequestPossible
  | WaitForTable int
  | TableDone int

text \<open>
  The state of the receptionist process: the shared region, the value of every
  semaphore, whether \<open>semgid\<close> still names a semaphore set the system accepts,
  the private array \<open>groupRecord\<close>, and what \<open>saveState\<close> has logged (latest
  first).
\<close>

record state =
  fSt :: full_stat
  sem :: "gate \<Rightarrow> nat"
  semgid_ok :: bool
  groupRecord :: "int list"
  saved :: "full_stat list"

text \<open>
  How an operation can fail to return a state: an array index outside the array
  (undefined in C), a semaphore at zero (the process sleeps, and nobody else is in
  the model to wake it), and a semaphore call that reports an error (the source
  prints a message and exits).
\<close>

datatype error = OutOfBounds | Blocked gate | SemFailure

definition andThen :: "error + 'a \<Rightarrow> ('a \<Rightarrow> error + 'b) \<Rightarrow> error + 'b" where
  "andThen r f = (case r of Inl e \<Rightarrow> Inl e | Inr x \<Rightarrow> f x)"

definition inRange :: "int \<Rightarrow> 'a list \<Rightarrow> bool" where
  "inRange i xs \<longleftrightarrow> 0 \<le> i \<and> i < int (length xs)"

subsection \<open>Semaphores and logging\<close>

text \<open>
  Modelled from the spec: semaphore.c is not among the sources. \<open>semDown\<close> waits
  until the semaphore is positive and then decrements it, \<open>semUp\<close> increments it
  and never waits; either reports an error when the system refuses the call
  (section 4.1). A wait at zero is the result \<open>Blocked\<close>.
\<close>

definition semDown :: "gate \<Rightarrow> state \<Rightarrow> error + state" where
  "semDown g s =
     (if \<not> semgid_ok s then Inl SemFailure
      else if sem s g = 0 then Inl (Blocked g)
      else Inr (s\<lparr>sem := (sem s)(g := sem s g - 1)\<rparr>))"

definition semUp :: "gate \<Rightarrow> state \<Rightarrow> error + state" where
  "semUp g s =
     (if \<not> semgid_ok s then Inl SemFailure
      else Inr (s\<lparr>sem := (sem s)(g := sem s g + 1)\<rparr>))"

text \<open>
  Modelled from the spec: logging.c is not among the sources. \<open>saveState\<close> records
  the current \<open>fSt\<close> and changes nothing else (section 6).
\<close>

definition saveState :: "state \<Rightarrow> state" where
  "saveState s = s\<lparr>saved := fSt s # saved s\<rparr>"

subsection \<open>The decision functions\<close>

text \<open>
  The inner loop of \<open>decideTableOrWait\<close>, from group index \<open>i\<close>: the value of
  \<open>notInUse\<close> when the loop ends. Reading \<open>assignedTable[i]\<close> beyond the array
  is an error.
\<close>

function notInUse :: "state \<Rightarrow> int \<Rightarrow> int \<Rightarrow> error + bool" where
  "notInUse s numTable i =
     (if i < nGroups (fSt s) then
        (if \<not> inRange i (assignedTable (fSt s)) then Inl OutOfBounds
         else if assignedTable (fSt s) ! nat i = numTable then Inr False
         else notInUse s numTable (i + 1))
      else Inr True)"
  by pat_completeness auto
termination
  by (relation "measure (\<lambda>(s, numTable, i). nat (nGroups (fSt s) - i))") auto

text \<open>
  The outer loop, from table \<open>numTable\<close>; \<open>NT\<close> is the constant NUMTABLES of
  probConst.h, which is not among the sources and is a parameter here.
\<close>

function scanTables :: "int \<Rightarrow> state \<Rightarrow> int \<Rightarrow> error + int" where
  "scanTables NT s numTable =
     (if numTable < NT then
        (case notInUse s numTable 0 of
           Inl e \<Rightarrow> Inl e
         | Inr free \<Rightarrow> if free then Inr numTable else scanTables NT s (numTable + 1))
      else Inr (- 1))"
  by pat_completeness auto
termination
  by (relation "measure (\<lambda>(NT, s, numTable). nat (NT - numTable))") auto

definition decideTableOrWait :: "int \<Rightarrow> int \<Rightarrow> state \<Rightarrow> error + int" where
  "decideTableOrWait NT n s = scanTables NT s 0"

text \<open>The loop of \<open>decideNextGroup\<close>, from group index \<open>i\<close>.\<close>

function nextGroupFrom :: "state \<Rightarrow> int \<Rightarrow> error + int" where
  "nextGroupFrom s i =
     (if i < nGroups (fSt s) then
        (if \<not> inRange i (groupRecord s) then Inl OutOfBounds
         else if groupRecord s ! nat i = WAIT then Inr i
         else nextGroupFrom s (i + 1))
      else Inr (- 1))"
  by pat_completeness auto
termination
  by (relation "measure (\<lambda>(s, i). nat (nGroups (fSt s) - i))") auto

definition decideNextGroup :: "state \<Rightarrow> error + int" where
  "decideNextGroup s = nextGroupFrom s 0"

declare notInUse.simps [simp del] scanTables.simps [simp del] nextGroupFrom.simps [simp del]

subsection \<open>The receptionist operations\<close>

text \<open>
  \<open>waitForGroup\<close>: publish the status, sleep until a request is pending, copy the
  request out of the slot, empty the slot, and allow the next request.
\<close>

definition emptyRequest :: request where
  "emptyRequest = \<lparr>reqType = - 1, reqGroup = - 1\<rparr>"

definition waitForGroup :: "state \<Rightarrow> error + (request \<times> state)" where
  "waitForGroup s =
     andThen (semDown Mutex s) (\<lambda>s1.
     let s2 = saveState (s1\<lparr>fSt := (fSt s1)\<lparr>receptionistStat := WAIT_FOR_REQUEST\<rparr>\<rparr>) in
     andThen (semUp Mutex s2) (\<lambda>s3.
     andThen (semDown ReceptionistReq s3) (\<lambda>s4.
     andThen (semDown Mutex s4) (\<lambda>s5.
     let ret = receptionistRequest (fSt s5);
         s6 = s5\<lparr>fSt := (fSt s5)\<lparr>receptionistRequest :=
                 (receptionistRequest (fSt s5))\<lparr>reqType := - 1\<rparr>\<rparr>\<rparr>;
         s7 = s6\<lparr>fSt := (fSt s6)\<lparr>receptionistRequest :=
                 (receptionistRequest (fSt s6))\<lparr>reqGroup := - 1\<rparr>\<rparr>\<rparr>;
         s8 = saveState s7 in
     andThen (semUp Mutex s8) (\<lambda>s9.
     andThen (semUp ReceptionistRequestPossible s9) (\<lambda>s10.
     Inr (ret, s10)))))))"

text \<open>
  The critical section of \<open>provideTableOrWaitingRoom\<close>, entered with the mutex
  held and left before it is released. The semaphore array \<open>waitForTable\<close> has
  an entry for every slot of \<open>groupRecord\<close>, so \<open>n\<close> has been checked when
  \<open>waitForTable[n]\<close> is read. \<open>groupsWaiting++\<close> is the integer successor, which
  is the machine increment below \<open>INT_MAX\<close>.
\<close>

definition assignOrQueue :: "int \<Rightarrow> int \<Rightarrow> state \<Rightarrow> error + state" where
  "assignOrQueue NT n s1 =
     (let s2 = saveState (s1\<lparr>fSt := (fSt s1)\<lparr>receptionistStat := ASSIGNTABLE\<rparr>\<rparr>) in
      andThen (decideTableOrWait NT n s2) (\<lambda>table.
      if table \<noteq> - 1 then
        (if \<not> inRange n (assignedTable (fSt s2)) then Inl OutOfBounds
         else
           let s3 = s2\<lparr>fSt := (fSt s2)\<lparr>assignedTable :=
                       (assignedTable (fSt s2))[nat n := table]\<rparr>\<rparr> in
           if \<not> inRange n (groupRecord s3) then Inl OutOfBounds
           else
             let s4 = s3\<lparr>groupRecord := (groupRecord s3)[nat n := ATTABLE]\<rparr> in
             semUp (WaitForTable n) s4)
      else
        (let s3 = s2\<lparr>fSt := (fSt s2)\<lparr>groupsWaiting := groupsWaiting (fSt s2) + 1\<rparr>\<rparr> in
         if \<not> inRange n (groupRecord s3) then Inl OutOfBounds
         else Inr (s3\<lparr>groupRecord := (groupRecord s3)[nat n := WAIT]\<rparr>))))"

definition provideTableOrWaitingRoom :: "int \<Rightarrow> int \<Rightarrow> state \<Rightarrow> error + state" where
  "provideTableOrWaitingRoom NT n s =
     andThen (semDown Mutex s) (\<lambda>s1.
     andThen (assignOrQueue NT n s1) (\<lambda>s5.
     semUp Mutex s5))"

text \<open>
  The critical section of \<open>receivePayment\<close>. The semaphore array \<open>tableDone\<close>
  has one entry for each of the \<open>NT\<close> tables, and it is indexed with
  \<open>assignedTable[n]\<close> as it is.
\<close>

definition vacateTable :: "int \<Rightarrow> int \<Rightarrow> state \<Rightarrow> error + state" where
  "vacateTable NT n s1 =
     (let s2 = saveState (s1\<lparr>fSt := (fSt s1)\<lparr>receptionistStat := RECVPAY\<rparr>\<rparr>) in
      if \<not> inRange n (assignedTable (fSt s2)) then Inl OutOfBounds
      else
        let t = assignedTable (fSt s2) ! nat n in
        if \<not> (0 \<le> t \<and> t < NT) then Inl OutOfBounds
        else
          andThen (semUp (TableDone t) s2) (\<lambda>s3.
          let s4 = s3\<lparr>fSt := (fSt s3)\<lparr>assignedTable :=
                      (assignedTable (fSt s3))[nat n := - 1]\<rparr>\<rparr> in
          if \<not> inRange n (groupRecord s4) then Inl OutOfBounds
          else
            Inr (saveState (s4\<lparr>groupRecord := (groupRecord s4)[nat n := DONE]\<rparr>))))"

text \<open>
  \<open>receivePayment\<close>: the critical section, then the choice of a waiting group
  with the mutex released. \<open>groupsWaiting--\<close> is the integer predecessor, which
  is the machine decrement above \<open>INT_MIN\<close>.
\<close>

definition receivePayment :: "int \<Rightarrow> int \<Rightarrow> state \<Rightarrow> error + state" where
  "receivePayment NT n s =
     andThen (semDown Mutex s) (\<lambda>s1.
     andThen (vacateTable NT n s1) (\<lambda>s6.
     andThen (semUp Mutex s6) (\<lambda>s7.
     andThen (decideNextGroup s7) (\<lambda>group.
     if group \<noteq> - 1 then
       andThen (provideTableOrWaitingRoom NT group s7) (\<lambda>s8.
       Inr (s8\<lparr>fSt := (fSt s8)\<lparr>groupsWaiting := groupsWaiting (fSt s8) - 1\<rparr>\<rparr>))
     else Inr s7))))"

subsection \<open>Sequences of operations\<close>

datatype op = WaitForGroup | ProvideTableOrWaitingRoom int | ReceivePayment int

fun applyOp :: "int \<Rightarrow> op \<Rightarrow> state \<Rightarrow> error + state" where
  "applyOp NT WaitForGroup s = andThen (waitForGroup s) (\<lambda>(req, s'). Inr s')"
| "applyOp NT (ProvideTableOrWaitingRoom n) s = provideTableOrWaitingRoom NT n s"
| "applyOp NT (ReceivePayment n) s = receivePayment NT n s"

fun run :: "int \<Rightarrow> op list \<Rightarrow> state \<Rightarrow> error + state" where
  "run NT [] s = Inr s"
| "run NT (x # xs) s = andThen (applyOp NT x s) (run NT xs)"

text \<open>
  Modelled from the spec: the program that creates the shared region and the
  semaphore set is not among the sources. At the start no group has a table, no
  group waits, the request slot is empty, the mutex and "request slot available"
  are at 1 and every other semaphore at 0 (sections 3 and 4.1). \<open>main\<close> sets
  \<open>groupRecord\<close> to TOARRIVE. \<open>mg\<close> is the size MAXGROUPS of the arrays, \<open>ng\<close>
  the configured number of groups.
\<close>

definition initState :: "nat \<Rightarrow> int \<Rightarrow> state" where
  "initState mg ng =
     \<lparr>fSt = \<lparr>nGroups = ng, receptionistStat = WAIT_FOR_REQUEST,
             assignedTable = replicate mg (- 1), groupsWaiting = 0,
             receptionistRequest = emptyRequest\<rparr>,
      sem = (\<lambda>g. if g = Mutex \<or> g = ReceptionistRequestPossible then 1 else 0),
      semgid_ok = True,
      groupRecord = replicate mg TOARRIVE,
      saved = []\<rparr>"

text \<open>Two states for examples: three groups and three tables, four groups and one table.\<close>

definition twoSeated :: state where
  "twoSeated = (initState 3 3)
     \<lparr>fSt := (fSt (initState 3 3))\<lparr>assignedTable := [0, 2, - 1]\<rparr>,
      groupRecord := [ATTABLE, ATTABLE, TOARRIVE]\<rparr>"

definition twoWaiting :: state where
  "twoWaiting = (initState 4 4)
     \<lparr>fSt := (fSt (initState 4 4))\<lparr>assignedTable := [- 1, 0, - 1, - 1], groupsWaiting := 2\<rparr>,
      groupRecord := [DONE, ATTABLE, WAIT, WAIT]\<rparr>"

text \<open>
  Scenario A of the specification: group 0 asks for a table, group 1 asks for a
  table, group 0 pays.
\<close>

definition scenarioA :: "op list" where
  "scenarioA = [ProvideTableOrWaitingRoom 0, ProvideTableOrWaitingRoom 1, ReceivePayment 0]"

text \<open>A state in which group 0 has posted a request of type 1 that is still to be read.\<close>

definition requestPending :: state where
  "requestPending = (initState 2 2)
     \<lparr>fSt := (fSt (initState 2 2))\<lparr>receptionistRequest := \<lparr>reqType = 1, reqGroup = 0\<rparr>\<rparr>,
      sem := (sem (initState 2 2))(ReceptionistReq := 1, ReceptionistRequestPossible := 0)\<rparr>"

subsection \<open>Predicates of the specification\<close>

text \<open>
  The arrays are large enough for the configured number of groups, and
  \<open>assignedTable\<close> has as many entries as \<open>groupRecord\<close> (MAXGROUPS).
\<close>

definition arraysFit :: "state \<Rightarrow> bool" where
  "arraysFit s \<longleftrightarrow>
     nGroups (fSt s) \<le> int (length (assignedTable (fSt s))) \<and>
     length (groupRecord s) = length (assignedTable (fSt s))"

text \<open>The table entries and the records of the groups \<open>0 .. nGroups - 1\<close>.\<close>

definition heldTables :: "state \<Rightarrow> int list" where
  "heldTables s = take (nat (nGroups (fSt s))) (assignedTable (fSt s))"

definition records :: "state \<Rightarrow> int list" where
  "records s = take (nat (nGroups (fSt s))) (groupRecord s)"

text \<open>
  \<open>t\<close> is the answer of a scan of the indices \<open>k, k + 1, ..\<close> below \<open>hi\<close> for
  the first one with \<open>P\<close>: the smallest such index, or \<open>-1\<close> when there is none.
\<close>

definition firstFrom :: "(int \<Rightarrow> bool) \<Rightarrow> int \<Rightarrow> int \<Rightarrow> int \<Rightarrow> bool" where
  "firstFrom P hi k t \<longleftrightarrow>
     (if \<forall>j. k \<le> j \<and> j < hi \<longrightarrow> \<not> P j then t = - 1
      else k \<le> t \<and> t < hi \<and> P t \<and> (\<forall>j. k \<le> j \<and> j < t \<longrightarrow> \<not> P j))"


text \<open>
  Table uniqueness: among the groups' entries the ones that are not \<open>-1\<close> are
  pairwise distinct, and each of them is a table index.
\<close>

definition tablesUnique :: "int \<Rightarrow> state \<Rightarrow> bool" where
  "tablesUnique NT s \<longleftrightarrow>
     distinct (filter (\<lambda>t. t \<noteq> - 1) (heldTables s)) \<and>
     (\<forall>t \<in> set (heldTables s). t \<noteq> - 1 \<longrightarrow> 0 \<le> t \<and> t < NT)"

text \<open>The group ids of a sequence of operations are ids of configured groups.\<close>

fun idInRange :: "int \<Rightarrow> op \<Rightarrow> bool" where
  "idInRange N WaitForGroup \<longleftrightarrow> True"
| "idInRange N (ProvideTableOrWaitingRoom n) \<longleftrightarrow> 0 \<le> n \<and> n < N"
| "idInRange N (ReceivePayment n) \<longleftrightarrow> 0 \<le> n \<and> n < N"

text \<open>The number of groups whose record is WAIT.\<close>

definition waitingGroups :: "state \<Rightarrow> nat" where
  "waitingGroups s = length (filter (\<lambda>r. r = WAIT) (records s))"

text \<open>Every group recorded as seated has a table entry.\<close>

definition seatedHoldTable :: "state \<Rightarrow> bool" where
  "seatedHoldTable s \<longleftrightarrow>
     (\<forall>(r, t) \<in> set (zip (records s) (heldTables s)). r = ATTABLE \<longrightarrow> t \<noteq> - 1)"

text \<open>What holds between two operations of the receptionist.\<close>

definition quiescent :: "int \<Rightarrow> state \<Rightarrow> bool" where
  "quiescent NT s \<longleftrightarrow>
     arraysFit s \<and> tablesUnique NT s \<and> seatedHoldTable s \<and>
     groupsWaiting (fSt s) = int (waitingGroups s)"

text \<open>
  Modelled from the spec: the program of the groups is not among the sources. A
  group asks for a table once, when it arrives, and for the bill once, while it is
  seated (section 4.3); the receptionist can always be asked to wait for a request.
\<close>

fun requested :: "op \<Rightarrow> state \<Rightarrow> bool" where
  "requested WaitForGroup s \<longleftrightarrow> True"
| "requested (ProvideTableOrWaitingRoom n) s \<longleftrightarrow>
     0 \<le> n \<and> n < nGroups (fSt s) \<and> groupRecord s ! nat n = TOARRIVE"
| "requested (ReceivePayment n) s \<longleftrightarrow>
     0 \<le> n \<and> n < nGroups (fSt s) \<and> groupRecord s ! nat n = ATTABLE"

text \<open>Every operation of the sequence is one the groups have asked for when it starts.\<close>

fun conformant :: "int \<Rightarrow> op list \<Rightarrow> state \<Rightarrow> bool" where
  "conformant NT [] s \<longleftrightarrow> True"
| "conformant NT (x # xs) s \<longleftrightarrow>
     requested x s \<and>
     (case applyOp NT x s of Inl e \<Rightarrow> True | Inr s' \<Rightarrow> conformant NT xs s')"

text \<open>
  The change of \<open>groupsWaiting\<close> in the words of the specification: one more when
  \<open>provideTableOrWaitingRoom\<close> has queued the group, one less when
  \<open>receivePayment\<close> has given a table to a queued group (some record went from
  WAIT to ATTABLE), and none otherwise.
\<close>

definition reassigned :: "state \<Rightarrow> state \<Rightarrow> bool" where
  "reassigned s s' \<longleftrightarrow>
     (\<exists>(r, r') \<in> set (zip (records s) (records s')). r = WAIT \<and> r' = ATTABLE)"

fun waitingChange :: "op \<Rightarrow> state \<Rightarrow> state \<Rightarrow> int" where
  "waitingChange WaitForGroup s s' = 0"
| "waitingChange (ProvideTableOrWaitingRoom n) s s' =
     (if groupRecord s' ! nat n = WAIT then 1 else 0)"
| "waitingChange (ReceivePayment n) s s' = (if reassigned s s' then - 1 else 0)"

subsection \<open>The states an operation returns\<close>

text \<open>
  The state \<open>provideTableOrWaitingRoom\<close> returns when it seats group \<open>n\<close> at
  table \<open>t\<close>, the state it returns when it queues group \<open>n\<close>, and the state of
  \<open>receivePayment\<close> after its critical section. The lemmas below show that the
  operations return exactly these.
\<close>

definition seatedAt :: "int \<Rightarrow> int \<Rightarrow> state \<Rightarrow> state" where
  "seatedAt n t s = s
    \<lparr>fSt := (fSt s)\<lparr>receptionistStat := ASSIGNTABLE,
                     assignedTable := (assignedTable (fSt s))[nat n := t]\<rparr>,
     sem := (sem s)(WaitForTable n := sem s (WaitForTable n) + 1),
     groupRecord := (groupRecord s)[nat n := ATTABLE],
     saved := (fSt s)\<lparr>receptionistStat := ASSIGNTABLE\<rparr> # saved s\<rparr>"

definition queued :: "int \<Rightarrow> state \<Rightarrow> state" where
  "queued n s = s
    \<lparr>fSt := (fSt s)\<lparr>receptionistStat := ASSIGNTABLE,
                     groupsWaiting := groupsWaiting (fSt s) + 1\<rparr>,
     groupRecord := (groupRecord s)[nat n := WAIT],
     saved := (fSt s)\<lparr>receptionistStat := ASSIGNTABLE\<rparr> # saved s\<rparr>"

definition vacated :: "int \<Rightarrow> state \<Rightarrow> state" where
  "vacated n s = s
    \<lparr>fSt := (fSt s)\<lparr>receptionistStat := RECVPAY,
                     assignedTable := (assignedTable (fSt s))[nat n := - 1]\<rparr>,
     sem := (sem s)(TableDone (assignedTable (fSt s) ! nat n) :=
                      sem s (TableDone (assignedTable (fSt s) ! nat n)) + 1),
     groupRecord := (groupRecord s)[nat n := DONE],
     saved := (fSt s)\<lparr>receptionistStat := RECVPAY,
                        assignedTable := (assignedTable (fSt s))[nat n := - 1]\<rparr>
              # (fSt s)\<lparr>receptionistStat := RECVPAY\<rparr> # saved s\<rparr>"

definition consumed :: "state \<Rightarrow> state" where
  "consumed s = s
    \<lparr>fSt := (fSt s)\<lparr>receptionistStat := WAIT_FOR_REQUEST,
                     receptionistRequest := emptyRequest\<rparr>,
     sem := (sem s)(ReceptionistReq := sem s ReceptionistReq - 1,
                    ReceptionistRequestPossible := sem s ReceptionistRequestPossible + 1),
     saved := (fSt s)\<lparr>receptionistStat := WAIT_FOR_REQUEST,
                        receptionistRequest := emptyRequest\<rparr>
              # (fSt s)\<lparr>receptionistStat := WAIT_FOR_REQUEST\<rparr> # saved s\<rparr>"

definition paidUp :: "state \<Rightarrow> state" where
  "paidUp s = s\<lparr>fSt := (fSt s)\<lparr>groupsWaiting := groupsWaiting (fSt s) - 1\<rparr>\<rparr>"
section \<open>Lemmas\<close>

subsection \<open>The scans\<close>

lemma drop_take_step:
  assumes "0 \<le> i" "i < N" "N \<le> int (length xs)"
  shows "drop (nat i) (take (nat N) xs) = xs ! nat i # drop (nat (i + 1)) (take (nat N) xs)"
proof -
  have "nat i < length (take (nat N) xs)" using assms by auto
  then have "drop (nat i) (take (nat N) xs) = take (nat N) xs ! nat i # drop (Suc (nat i)) (take (nat N) xs)"
    by (rule Cons_nth_drop_Suc [symmetric])
  moreover have "take (nat N) xs ! nat i = xs ! nat i" using assms by auto
  moreover have "Suc (nat i) = nat (i + 1)" using assms by auto
  ultimately show ?thesis by simp
qed

lemma notInUse_from:
  "arraysFit s \<Longrightarrow> 0 \<le> i \<Longrightarrow>
   notInUse s numTable i = Inr (numTable \<notin> set (drop (nat i) (heldTables s)))"
proof (induction s numTable i rule: notInUse.induct)
  case (1 s numTable i)
  show ?case
  proof (cases "i < nGroups (fSt s)")
    case True
    with "1.prems" have r: "inRange i (assignedTable (fSt s))"
      by (simp add: inRange_def arraysFit_def)
    have d: "drop (nat i) (heldTables s) =
        assignedTable (fSt s) ! nat i # drop (nat (i + 1)) (heldTables s)"
      unfolding heldTables_def using "1.prems" True
      by (intro drop_take_step) (auto simp: arraysFit_def)
    show ?thesis
    proof (cases "assignedTable (fSt s) ! nat i = numTable")
      case True
      with \<open>i < nGroups (fSt s)\<close> r d show ?thesis
        by (subst notInUse.simps) simp
    next
      case False
      with "1.IH" [OF \<open>i < nGroups (fSt s)\<close> _ False] "1.prems" r
      have "notInUse s numTable (i + 1) = Inr (numTable \<notin> set (drop (nat (i + 1)) (heldTables s)))"
        by simp
      with False \<open>i < nGroups (fSt s)\<close> r d show ?thesis
        by (subst notInUse.simps) auto
    qed
  next
    case False
    then have "drop (nat i) (heldTables s) = []"
      by (simp add: heldTables_def)
    with False show ?thesis by (subst notInUse.simps) simp
  qed
qed

lemma firstFrom_done: "\<not> k < hi \<Longrightarrow> firstFrom P hi k (- 1)"
proof -
  assume "\<not> k < hi"
  then have "\<forall>j. k \<le> j \<and> j < hi \<longrightarrow> \<not> P j" by arith
  then show ?thesis unfolding firstFrom_def by (rule_tac if_P [THEN iffD2]) simp_all
qed

lemma firstFrom_here: "k < hi \<Longrightarrow> P k \<Longrightarrow> firstFrom P hi k k"
proof -
  assume a: "k < hi" "P k"
  then have n: "\<not> (\<forall>j. k \<le> j \<and> j < hi \<longrightarrow> \<not> P j)" by (metis order_refl)
  have "k \<le> k \<and> k < hi \<and> P k \<and> (\<forall>j. k \<le> j \<and> j < k \<longrightarrow> \<not> P j)"
    using a by auto
  then show ?thesis unfolding firstFrom_def if_not_P [OF n] .
qed

lemma firstFrom_next:
  assumes "\<not> P k" "firstFrom P hi (k + 1) t"
  shows "firstFrom P hi k t"
proof -
  have e: "\<And>j. k \<le> j \<Longrightarrow> j \<noteq> k \<Longrightarrow> k + 1 \<le> j" by arith
  have a: "(\<forall>j. k \<le> j \<and> j < hi \<longrightarrow> \<not> P j) \<longleftrightarrow> (\<forall>j. k + 1 \<le> j \<and> j < hi \<longrightarrow> \<not> P j)"
  proof
    assume "\<forall>j. k \<le> j \<and> j < hi \<longrightarrow> \<not> P j"
    then show "\<forall>j. k + 1 \<le> j \<and> j < hi \<longrightarrow> \<not> P j" by auto
  next
    assume h: "\<forall>j. k + 1 \<le> j \<and> j < hi \<longrightarrow> \<not> P j"
    show "\<forall>j. k \<le> j \<and> j < hi \<longrightarrow> \<not> P j"
    proof (intro allI impI)
      fix j assume "k \<le> j \<and> j < hi"
      then show "\<not> P j" using h assms(1) e [of j] by (cases "j = k") auto
    qed
  qed
  show ?thesis
  proof (cases "\<forall>j. k + 1 \<le> j \<and> j < hi \<longrightarrow> \<not> P j")
    case True
    with assms(2) have "t = - 1" by (simp add: firstFrom_def)
    moreover from True a have "\<forall>j. k \<le> j \<and> j < hi \<longrightarrow> \<not> P j" by simp
    ultimately show ?thesis unfolding firstFrom_def by (rule_tac if_P [THEN iffD2]) simp_all
  next
    case False
    with assms(2) have p: "k + 1 \<le> t" "t < hi" "P t"
      "\<forall>j. k + 1 \<le> j \<and> j < t \<longrightarrow> \<not> P j"
      by (simp_all add: firstFrom_def)
    have q: "\<forall>j. k \<le> j \<and> j < t \<longrightarrow> \<not> P j"
    proof (intro allI impI)
      fix j assume "k \<le> j \<and> j < t"
      then show "\<not> P j" using p(4) assms(1) e [of j] by (cases "j = k") auto
    qed
    from False a have n: "\<not> (\<forall>j. k \<le> j \<and> j < hi \<longrightarrow> \<not> P j)" by simp
    have "k \<le> t \<and> t < hi \<and> P t \<and> (\<forall>j. k \<le> j \<and> j < t \<longrightarrow> \<not> P j)"
      using p q by simp
    then show ?thesis unfolding firstFrom_def if_not_P [OF n] .
  qed
qed

lemma scanTables_from:
  "arraysFit s \<Longrightarrow>
   \<exists>t. scanTables NT s k = Inr t \<and> firstFrom (\<lambda>j. j \<notin> set (heldTables s)) NT k t"
proof (induction NT s k rule: scanTables.induct)
  case (1 NT s k)
  show ?case
  proof (cases "k < NT")
    case False
    then have "scanTables NT s k = Inr (- 1)" by (subst scanTables.simps) simp
    with False show ?thesis by (simp add: firstFrom_done)
  next
    case True
    have n: "notInUse s k 0 = Inr (k \<notin> set (heldTables s))"
      using notInUse_from [OF "1.prems", of 0 k] by simp
    show ?thesis
    proof (cases "k \<in> set (heldTables s)")
      case False
      with True n have "scanTables NT s k = Inr k" by (subst scanTables.simps) simp
      with True False show ?thesis by (simp add: firstFrom_here)
    next
      case k: True
      then have "\<not> (k \<notin> set (heldTables s))" by simp
      from "1.IH" [OF True n this "1.prems"]
      obtain t where t: "scanTables NT s (k + 1) = Inr t"
        and p: "firstFrom (\<lambda>j. j \<notin> set (heldTables s)) NT (k + 1) t"
        by blast
      have "scanTables NT s k = Inr t"
        using True n k t by (subst scanTables.simps) simp
      moreover have "firstFrom (\<lambda>j. j \<notin> set (heldTables s)) NT k t"
      proof (rule firstFrom_next)
        show "\<not> k \<notin> set (heldTables s)" using k by simp
      qed (rule p)
      ultimately show ?thesis by simp
    qed
  qed
qed

lemma nextGroupFrom_from:
  "arraysFit s \<Longrightarrow> 0 \<le> i \<Longrightarrow>
   \<exists>g. nextGroupFrom s i = Inr g \<and>
       firstFrom (\<lambda>j. groupRecord s ! nat j = WAIT) (nGroups (fSt s)) i g"
proof (induction s i rule: nextGroupFrom.induct)
  case (1 s i)
  show ?case
  proof (cases "i < nGroups (fSt s)")
    case False
    then have "nextGroupFrom s i = Inr (- 1)" by (subst nextGroupFrom.simps) simp
    with False show ?thesis by (simp add: firstFrom_done)
  next
    case True
    with "1.prems" have r: "inRange i (groupRecord s)"
      by (simp add: inRange_def arraysFit_def)
    show ?thesis
    proof (cases "groupRecord s ! nat i = WAIT")
      case w: True
      with True r have "nextGroupFrom s i = Inr i" by (subst nextGroupFrom.simps) simp
      moreover have "firstFrom (\<lambda>j. groupRecord s ! nat j = WAIT) (nGroups (fSt s)) i i"
      proof (rule firstFrom_here)
        show "groupRecord s ! nat i = WAIT" by (rule w)
      qed (rule True)
      ultimately show ?thesis by simp
    next
      case False
      have "\<not> \<not> inRange i (groupRecord s)" using r by simp
      from "1.IH" [OF True this False "1.prems"(1)] "1.prems"(2)
      obtain g where g: "nextGroupFrom s (i + 1) = Inr g"
        and p: "firstFrom (\<lambda>j. groupRecord s ! nat j = WAIT) (nGroups (fSt s)) (i + 1) g"
        by auto
      have "nextGroupFrom s i = Inr g"
        using True r False g by (subst nextGroupFrom.simps) simp
      moreover have "firstFrom (\<lambda>j. groupRecord s ! nat j = WAIT) (nGroups (fSt s)) i g"
      proof (rule firstFrom_next)
        show "groupRecord s ! nat i \<noteq> WAIT" by (rule False)
      qed (rule p)
      ultimately show ?thesis by simp
    qed
  qed
qed

subsection \<open>Sequencing and what the scans read\<close>

lemma andThen_Inl [simp]: "andThen (Inl e) f = Inl e"
  by (simp add: andThen_def)

lemma andThen_Inr [simp]: "andThen (Inr x) f = f x"
  by (simp add: andThen_def)

lemma andThen_eq_Inr:
  "andThen r f = Inr y \<longleftrightarrow> (\<exists>x. r = Inr x \<and> f x = Inr y)"
  by (cases r) simp_all

lemma notInUse_cong:
  assumes "nGroups (fSt s') = nGroups (fSt s)" "assignedTable (fSt s') = assignedTable (fSt s)"
  shows "notInUse s' numTable i = notInUse s numTable i"
  using assms
proof (induction s numTable i rule: notInUse.induct)
  case (1 s numTable i)
  note L = notInUse.simps [of s' numTable i] and R = notInUse.simps [of s numTable i]
  show ?case
  proof (cases "i < nGroups (fSt s) \<and> inRange i (assignedTable (fSt s)) \<and>
                assignedTable (fSt s) ! nat i \<noteq> numTable")
    case True
    then have "notInUse s' numTable (i + 1) = notInUse s numTable (i + 1)"
      using "1.IH" "1.prems" by simp
    with True "1.prems" show ?thesis by (simp add: L R)
  next
    case False
    with "1.prems" show ?thesis by (auto simp add: L R)
  qed
qed

lemma scanTables_cong:
  assumes "nGroups (fSt s') = nGroups (fSt s)" "assignedTable (fSt s') = assignedTable (fSt s)"
  shows "scanTables NT s' k = scanTables NT s k"
  using assms
proof (induction NT s k rule: scanTables.induct)
  case (1 NT s k)
  note L = scanTables.simps [of NT s' k] and R = scanTables.simps [of NT s k]
  have n: "notInUse s' k 0 = notInUse s k 0"
    using "1.prems" by (rule notInUse_cong)
  show ?case
  proof (cases "k < NT \<and> notInUse s k 0 = Inr False")
    case True
    then have "scanTables NT s' (k + 1) = scanTables NT s (k + 1)"
      using "1.IH" [of False] "1.prems" by simp
    with True n show ?thesis by (simp add: L R)
  next
    case False
    with n show ?thesis by (auto simp add: L R split: sum.splits)
  qed
qed

lemma decideTableOrWait_cong:
  "nGroups (fSt s') = nGroups (fSt s) \<Longrightarrow> assignedTable (fSt s') = assignedTable (fSt s) \<Longrightarrow>
   decideTableOrWait NT n s' = decideTableOrWait NT n s"
  unfolding decideTableOrWait_def by (rule scanTables_cong)

lemma nextGroupFrom_cong:
  assumes "nGroups (fSt s') = nGroups (fSt s)" "groupRecord s' = groupRecord s"
  shows "nextGroupFrom s' i = nextGroupFrom s i"
  using assms
proof (induction s i rule: nextGroupFrom.induct)
  case (1 s i)
  note L = nextGroupFrom.simps [of s' i] and R = nextGroupFrom.simps [of s i]
  show ?case
  proof (cases "i < nGroups (fSt s) \<and> inRange i (groupRecord s) \<and> groupRecord s ! nat i \<noteq> WAIT")
    case True
    then have "nextGroupFrom s' (i + 1) = nextGroupFrom s (i + 1)"
      using "1.IH" "1.prems" by simp
    with True "1.prems" show ?thesis by (simp add: L R)
  next
    case False
    with "1.prems" show ?thesis by (auto simp add: L R)
  qed
qed

lemma decideNextGroup_cong:
  "nGroups (fSt s') = nGroups (fSt s) \<Longrightarrow> groupRecord s' = groupRecord s \<Longrightarrow>
   decideNextGroup s' = decideNextGroup s"
  unfolding decideNextGroup_def by (rule nextGroupFrom_cong)

subsection \<open>What an operation that returns has done\<close>

lemma semDown_ok:
  "semgid_ok s \<Longrightarrow> 0 < sem s g \<Longrightarrow> semDown g s = Inr (s\<lparr>sem := (sem s)(g := sem s g - 1)\<rparr>)"
  by (simp add: semDown_def)

lemma semUp_ok:
  "semgid_ok s \<Longrightarrow> semUp g s = Inr (s\<lparr>sem := (sem s)(g := sem s g + 1)\<rparr>)"
  by (simp add: semUp_def)

lemma decideTableOrWait_sem [simp]:
  "decideTableOrWait NT n (s\<lparr>sem := f\<rparr>) = decideTableOrWait NT n s"
  by (rule decideTableOrWait_cong) simp_all

lemma decideTableOrWait_stat [simp]:
  "decideTableOrWait NT n (saveState (s\<lparr>fSt := (fSt s)\<lparr>receptionistStat := x\<rparr>\<rparr>)) =
   decideTableOrWait NT n s"
  by (rule decideTableOrWait_cong) (simp_all add: saveState_def)

lemma down_up_same: "0 < (f g :: nat) \<Longrightarrow> (f(g := f g - 1))(g := f g - 1 + 1) = f"
  by (simp add: fun_eq_iff)

lemma assignOrQueue_seat:
  assumes "semgid_ok s" "decideTableOrWait NT n s = Inr t" "t \<noteq> - 1"
    "inRange n (assignedTable (fSt s))" "inRange n (groupRecord s)"
  shows "assignOrQueue NT n s = Inr (seatedAt n t s)"
proof -
  have d: "decideTableOrWait NT n
      (saveState (s\<lparr>fSt := (fSt s)\<lparr>receptionistStat := ASSIGNTABLE\<rparr>\<rparr>)) = Inr t"
    using assms(2) by simp
  show ?thesis
    unfolding assignOrQueue_def Let_def d andThen_Inr using assms
    by (simp add: semUp_def saveState_def inRange_def seatedAt_def)
qed

lemma assignOrQueue_wait:
  assumes "decideTableOrWait NT n s = Inr (- 1)" "inRange n (groupRecord s)"
  shows "assignOrQueue NT n s = Inr (queued n s)"
proof -
  have d: "decideTableOrWait NT n
      (saveState (s\<lparr>fSt := (fSt s)\<lparr>receptionistStat := ASSIGNTABLE\<rparr>\<rparr>)) = Inr (- 1)"
    using assms(1) by simp
  show ?thesis
    unfolding assignOrQueue_def Let_def d andThen_Inr using assms
    by (simp add: saveState_def inRange_def queued_def)
qed

lemma provide_seat:
  assumes "semgid_ok s" "0 < sem s Mutex" "decideTableOrWait NT n s = Inr t" "t \<noteq> - 1"
    "inRange n (assignedTable (fSt s))" "inRange n (groupRecord s)"
  shows "provideTableOrWaitingRoom NT n s = Inr (seatedAt n t s)"
proof -
  let ?s1 = "s\<lparr>sem := (sem s)(Mutex := sem s Mutex - 1)\<rparr>"
  have 1: "semDown Mutex s = Inr ?s1" using assms by (simp add: semDown_ok)
  have 2: "assignOrQueue NT n ?s1 = Inr (seatedAt n t ?s1)"
    using assms by (intro assignOrQueue_seat) simp_all
  have 3: "((sem s)(Mutex := sem s Mutex - 1, WaitForTable n := sem s (WaitForTable n) + 1,
        Mutex := sem s Mutex - 1 + 1)) = (sem s)(WaitForTable n := sem s (WaitForTable n) + 1)"
    using assms(2) by (auto simp: fun_eq_iff)
  show ?thesis
    unfolding provideTableOrWaitingRoom_def 1 andThen_Inr 2 using assms(1) 3
    by (simp add: semUp_def seatedAt_def queued_def)
qed

lemma provide_wait:
  assumes "semgid_ok s" "0 < sem s Mutex" "decideTableOrWait NT n s = Inr (- 1)"
    "inRange n (groupRecord s)"
  shows "provideTableOrWaitingRoom NT n s = Inr (queued n s)"
proof -
  let ?s1 = "s\<lparr>sem := (sem s)(Mutex := sem s Mutex - 1)\<rparr>"
  have 1: "semDown Mutex s = Inr ?s1" using assms by (simp add: semDown_ok)
  have 2: "assignOrQueue NT n ?s1 = Inr (queued n ?s1)"
    using assms by (intro assignOrQueue_wait) simp_all
  have 3: "((sem s)(Mutex := sem s Mutex - 1, Mutex := sem s Mutex - 1 + 1)) = sem s"
    using assms(2) by (auto simp: fun_eq_iff)
  show ?thesis
    unfolding provideTableOrWaitingRoom_def 1 andThen_Inr 2 using assms(1) 3
    by (simp add: semUp_def seatedAt_def queued_def)
qed

lemma vacateTable_ok:
  assumes "semgid_ok s" "inRange n (assignedTable (fSt s))" "inRange n (groupRecord s)"
    "0 \<le> assignedTable (fSt s) ! nat n" "assignedTable (fSt s) ! nat n < NT"
  shows "vacateTable NT n s = Inr (vacated n s)"
  using assms
  by (simp add: vacateTable_def Let_def semUp_def saveState_def inRange_def vacated_def)

lemma vacateTable_no_table:
  assumes "inRange n (assignedTable (fSt s))"
    "\<not> (0 \<le> assignedTable (fSt s) ! nat n \<and> assignedTable (fSt s) ! nat n < NT)"
  shows "vacateTable NT n s = Inl OutOfBounds"
  using assms
  by (simp add: vacateTable_def Let_def saveState_def inRange_def)

lemma receivePayment_no_table:
  assumes "semgid_ok s" "0 < sem s Mutex" "inRange n (assignedTable (fSt s))"
    "\<not> (0 \<le> assignedTable (fSt s) ! nat n \<and> assignedTable (fSt s) ! nat n < NT)"
  shows "receivePayment NT n s = Inl OutOfBounds"
proof -
  let ?s1 = "s\<lparr>sem := (sem s)(Mutex := sem s Mutex - 1)\<rparr>"
  have 1: "semDown Mutex s = Inr ?s1" using assms by (simp add: semDown_ok)
  have 2: "vacateTable NT n ?s1 = Inl OutOfBounds"
    using assms by (intro vacateTable_no_table) simp_all
  show ?thesis unfolding receivePayment_def 1 andThen_Inr 2 by simp
qed

lemma receivePayment_ok:
  assumes "semgid_ok s" "0 < sem s Mutex"
    "inRange n (assignedTable (fSt s))" "inRange n (groupRecord s)"
    "0 \<le> assignedTable (fSt s) ! nat n" "assignedTable (fSt s) ! nat n < NT"
  shows "receivePayment NT n s =
     andThen (decideNextGroup (vacated n s)) (\<lambda>group.
       if group \<noteq> - 1 then
         andThen (provideTableOrWaitingRoom NT group (vacated n s)) (\<lambda>s8. Inr (paidUp s8))
       else Inr (vacated n s))"
proof -
  let ?s1 = "s\<lparr>sem := (sem s)(Mutex := sem s Mutex - 1)\<rparr>"
  have 1: "semDown Mutex s = Inr ?s1" using assms by (simp add: semDown_ok)
  have 2: "vacateTable NT n ?s1 = Inr (vacated n ?s1)"
    using assms by (intro vacateTable_ok) simp_all
  have 3: "semUp Mutex (vacated n ?s1) = Inr (vacated n s)"
    using assms(1,2) by (auto simp: semUp_def vacated_def fun_eq_iff)
  show ?thesis unfolding receivePayment_def 1 andThen_Inr 2 3 paidUp_def ..
qed

lemma waitForGroup_ok:
  assumes "semgid_ok s" "0 < sem s Mutex" "0 < sem s ReceptionistReq"
  shows "waitForGroup s = Inr (receptionistRequest (fSt s), consumed s)"
proof -
  have "waitForGroup s = Inr (receptionistRequest (fSt s), s
    \<lparr>fSt := (fSt s)\<lparr>receptionistStat := WAIT_FOR_REQUEST,
                     receptionistRequest := emptyRequest\<rparr>,
     sem := (sem s)(Mutex := sem s Mutex - 1, Mutex := sem s Mutex,
                    ReceptionistReq := sem s ReceptionistReq - 1,
                    Mutex := sem s Mutex - 1, Mutex := sem s Mutex,
                    ReceptionistRequestPossible := sem s ReceptionistRequestPossible + 1),
     saved := (fSt s)\<lparr>receptionistStat := WAIT_FOR_REQUEST,
                        receptionistRequest := emptyRequest\<rparr>
              # (fSt s)\<lparr>receptionistStat := WAIT_FOR_REQUEST\<rparr> # saved s\<rparr>)"
    using assms
    by (simp add: waitForGroup_def semDown_def semUp_def saveState_def Let_def emptyRequest_def)
  moreover have "(sem s)(Mutex := sem s Mutex - 1, Mutex := sem s Mutex,
                    ReceptionistReq := sem s ReceptionistReq - 1,
                    Mutex := sem s Mutex - 1, Mutex := sem s Mutex,
                    ReceptionistRequestPossible := sem s ReceptionistRequestPossible + 1) =
     (sem s)(ReceptionistReq := sem s ReceptionistReq - 1,
             ReceptionistRequestPossible := sem s ReceptionistRequestPossible + 1)"
    by (auto simp: fun_eq_iff)
  ultimately show ?thesis by (simp add: consumed_def)
qed

lemma semDown_Inr: "semDown g s = Inr s' \<Longrightarrow> semgid_ok s \<and> 0 < sem s g"
  by (auto simp: semDown_def split: if_splits)

lemma semUp_Inr: "semUp g s = Inr s' \<Longrightarrow> semgid_ok s"
  by (auto simp: semUp_def split: if_splits)

lemma provide_Inr:
  assumes "provideTableOrWaitingRoom NT n s = Inr s'"
  shows "semgid_ok s \<and> 0 < sem s Mutex \<and> inRange n (groupRecord s) \<and>
     (\<exists>t. decideTableOrWait NT n s = Inr t \<and>
        (if t \<noteq> - 1 then inRange n (assignedTable (fSt s)) \<and> s' = seatedAt n t s
         else s' = queued n s))"
proof -
  from assms obtain s1 s5 where 1: "semDown Mutex s = Inr s1"
    and 2: "assignOrQueue NT n s1 = Inr s5"
    by (auto simp: provideTableOrWaitingRoom_def andThen_eq_Inr)
  from 1 have a: "semgid_ok s" "0 < sem s Mutex" by (auto dest: semDown_Inr)
  with 1 have s1: "s1 = s\<lparr>sem := (sem s)(Mutex := sem s Mutex - 1)\<rparr>"
    by (simp add: semDown_ok)
  let ?s2 = "saveState (s1\<lparr>fSt := (fSt s1)\<lparr>receptionistStat := ASSIGNTABLE\<rparr>\<rparr>)"
  have c: "decideTableOrWait NT n ?s2 = decideTableOrWait NT n s"
    by (rule decideTableOrWait_cong) (simp_all add: s1 saveState_def)
  from 2 obtain t where t: "decideTableOrWait NT n s = Inr t"
    unfolding assignOrQueue_def Let_def andThen_eq_Inr c by blast
  from 2 have r: "inRange n (groupRecord s)"
    and q: "t \<noteq> - 1 \<Longrightarrow> inRange n (assignedTable (fSt s))"
    unfolding assignOrQueue_def Let_def c t andThen_Inr
    by (auto simp: saveState_def s1 split: if_splits)
  have "if t \<noteq> - 1 then inRange n (assignedTable (fSt s)) \<and> s' = seatedAt n t s
         else s' = queued n s"
  proof (cases "t = - 1")
    case True
    with provide_wait [OF a, of NT n] t r assms show ?thesis by simp
  next
    case False
    with provide_seat [OF a t] q r assms show ?thesis by simp
  qed
  with a r t show ?thesis by blast
qed

lemma receivePayment_Inr:
  assumes "receivePayment NT n s = Inr s'"
  shows "semgid_ok s \<and> 0 < sem s Mutex \<and> inRange n (assignedTable (fSt s)) \<and>
     inRange n (groupRecord s) \<and>
     0 \<le> assignedTable (fSt s) ! nat n \<and> assignedTable (fSt s) ! nat n < NT"
proof -
  from assms obtain s1 s6 where 1: "semDown Mutex s = Inr s1"
    and 2: "vacateTable NT n s1 = Inr s6"
    unfolding receivePayment_def andThen_eq_Inr by blast
  from 1 have a: "semgid_ok s" "0 < sem s Mutex" by (auto dest: semDown_Inr)
  with 1 have s1: "s1 = s\<lparr>sem := (sem s)(Mutex := sem s Mutex - 1)\<rparr>"
    by (simp add: semDown_ok)
  from 2 have "inRange n (assignedTable (fSt s)) \<and>
     inRange n (groupRecord s) \<and>
     0 \<le> assignedTable (fSt s) ! nat n \<and> assignedTable (fSt s) ! nat n < NT"
    unfolding vacateTable_def Let_def s1
    by (auto simp: saveState_def andThen_eq_Inr semUp_def split: if_splits)
  with a show ?thesis by simp
qed

lemma waitForGroup_Inr:
  assumes "waitForGroup s = Inr (r, s')"
  shows "semgid_ok s \<and> 0 < sem s Mutex \<and> 0 < sem s ReceptionistReq \<and>
     r = receptionistRequest (fSt s) \<and> s' = consumed s"
proof -
  from assms obtain s1 where 1: "semDown Mutex s = Inr s1"
    unfolding waitForGroup_def andThen_eq_Inr by blast
  then have a: "semgid_ok s" "0 < sem s Mutex" by (auto dest: semDown_Inr)
  with 1 have s1: "s1 = s\<lparr>sem := (sem s)(Mutex := sem s Mutex - 1)\<rparr>"
    by (simp add: semDown_ok)
  have b: "0 < sem s ReceptionistReq"
  proof (rule ccontr)
    assume "\<not> 0 < sem s ReceptionistReq"
    with a have "waitForGroup s = Inl (Blocked ReceptionistReq)"
      by (simp add: waitForGroup_def semDown_def semUp_def saveState_def Let_def)
    with assms show False by simp
  qed
  from waitForGroup_ok [OF a b] assms a b show ?thesis by simp
qed

subsection \<open>When the operations return\<close>

lemma firstFrom_found:
  assumes "firstFrom P hi k t" "t \<noteq> - 1"
  shows "k \<le> t \<and> t < hi \<and> P t \<and> (\<forall>j. k \<le> j \<and> j < t \<longrightarrow> \<not> P j)"
proof (cases "\<forall>j. k \<le> j \<and> j < hi \<longrightarrow> \<not> P j")
  case True
  from assms(1) have "t = - 1" unfolding firstFrom_def if_P [OF True] .
  with assms(2) show ?thesis by simp
next
  case False
  from assms(1) show ?thesis unfolding firstFrom_def if_not_P [OF False] .
qed

lemma firstFrom_none:
  assumes "firstFrom P hi k (- 1)" "0 \<le> k"
  shows "\<forall>j. k \<le> j \<and> j < hi \<longrightarrow> \<not> P j"
proof (rule ccontr)
  assume n: "\<not> (\<forall>j. k \<le> j \<and> j < hi \<longrightarrow> \<not> P j)"
  from assms(1) have "k \<le> - 1" unfolding firstFrom_def if_not_P [OF n] by (rule conjunct1)
  with assms(2) show False by simp
qed

lemma decide_total:
  "arraysFit s \<Longrightarrow> \<exists>t. decideTableOrWait NT n s = Inr t"
  using scanTables_from [of s NT 0] unfolding decideTableOrWait_def by blast

lemma decide_free:
  assumes "arraysFit s" "decideTableOrWait NT n s = Inr t" "t \<noteq> - 1"
  shows "0 \<le> t \<and> t < NT \<and> t \<notin> set (heldTables s)"
proof -
  from scanTables_from [OF assms(1), of NT 0] assms(2)
  have "firstFrom (\<lambda>j. j \<notin> set (heldTables s)) NT 0 t"
    unfolding decideTableOrWait_def by auto
  from firstFrom_found [OF this assms(3)] show ?thesis by simp
qed

lemma decide_none:
  assumes "arraysFit s" "decideTableOrWait NT n s = Inr (- 1)" "0 \<le> k" "k < NT"
  shows "k \<in> set (heldTables s)"
proof -
  from scanTables_from [OF assms(1), of NT 0] assms(2)
  have "firstFrom (\<lambda>j. j \<notin> set (heldTables s)) NT 0 (- 1)"
    unfolding decideTableOrWait_def by auto
  from firstFrom_none [OF this] assms(3,4) show ?thesis by simp
qed

lemma nextGroup_total:
  "arraysFit s \<Longrightarrow> \<exists>g. decideNextGroup s = Inr g \<and> (g = - 1 \<or> 0 \<le> g \<and> g < nGroups (fSt s))"
proof -
  assume a: "arraysFit s"
  from nextGroupFrom_from [OF a, of 0]
  obtain g where g: "decideNextGroup s = Inr g"
    and f: "firstFrom (\<lambda>j. groupRecord s ! nat j = WAIT) (nGroups (fSt s)) 0 g"
    unfolding decideNextGroup_def by auto
  from firstFrom_found [OF f] have "g = - 1 \<or> 0 \<le> g \<and> g < nGroups (fSt s)"
    by blast
  with g show ?thesis by blast
qed

lemma arraysFit_inRange:
  "arraysFit s \<Longrightarrow> 0 \<le> g \<Longrightarrow> g < nGroups (fSt s) \<Longrightarrow>
   inRange g (assignedTable (fSt s)) \<and> inRange g (groupRecord s)"
  by (simp add: arraysFit_def inRange_def)

lemma provide_total:
  assumes "arraysFit s" "semgid_ok s" "0 < sem s Mutex"
    "inRange n (assignedTable (fSt s))" "inRange n (groupRecord s)"
  shows "\<exists>s'. provideTableOrWaitingRoom NT n s = Inr s'"
proof -
  from decide_total [OF assms(1)] obtain t where t: "decideTableOrWait NT n s = Inr t" by blast
  show ?thesis
  proof (cases "t = - 1")
    case True
    with provide_wait [OF assms(2,3) _ assms(5), of NT] t show ?thesis by blast
  next
    case False
    with provide_seat [OF assms(2,3) t _ assms(4,5)] show ?thesis by blast
  qed
qed

lemma arraysFit_vacated [simp]: "arraysFit (vacated n s) = arraysFit s"
  by (simp add: arraysFit_def vacated_def)

lemma arraysFit_seatedAt [simp]: "arraysFit (seatedAt n t s) = arraysFit s"
  by (simp add: arraysFit_def seatedAt_def)

lemma arraysFit_queued [simp]: "arraysFit (queued n s) = arraysFit s"
  by (simp add: arraysFit_def queued_def)

lemma arraysFit_consumed [simp]: "arraysFit (consumed s) = arraysFit s"
  by (simp add: arraysFit_def consumed_def)

lemma arraysFit_paidUp [simp]: "arraysFit (paidUp s) = arraysFit s"
  by (simp add: arraysFit_def paidUp_def)

lemma receivePayment_total:
  assumes "arraysFit s" "semgid_ok s" "0 < sem s Mutex"
    "inRange n (assignedTable (fSt s))" "inRange n (groupRecord s)"
    "0 \<le> assignedTable (fSt s) ! nat n" "assignedTable (fSt s) ! nat n < NT"
  shows "\<exists>s'. receivePayment NT n s = Inr s'"
proof -
  note r = receivePayment_ok [OF assms(2-7)]
  have a: "arraysFit (vacated n s)" using assms(1) by simp
  from nextGroup_total [OF a] obtain g where g: "decideNextGroup (vacated n s) = Inr g"
    and b: "g = - 1 \<or> 0 \<le> g \<and> g < nGroups (fSt (vacated n s))" by blast
  show ?thesis
  proof (cases "g = - 1")
    case True
    with r g show ?thesis by simp
  next
    case False
    with b have "inRange g (assignedTable (fSt (vacated n s))) \<and> inRange g (groupRecord (vacated n s))"
      using arraysFit_inRange [OF a] by simp
    moreover have "semgid_ok (vacated n s)" "0 < sem (vacated n s) Mutex"
      using assms(2,3) by (simp_all add: vacated_def)
    ultimately obtain s8 where "provideTableOrWaitingRoom NT g (vacated n s) = Inr s8"
      using provide_total [OF a, of g NT] by blast
    with r g False show ?thesis by simp
  qed
qed

lemma seatedAt_fields [simp]:
  "nGroups (fSt (seatedAt n t s)) = nGroups (fSt s)"
  "assignedTable (fSt (seatedAt n t s)) = (assignedTable (fSt s))[nat n := t]"
  "groupsWaiting (fSt (seatedAt n t s)) = groupsWaiting (fSt s)"
  "receptionistRequest (fSt (seatedAt n t s)) = receptionistRequest (fSt s)"
  "groupRecord (seatedAt n t s) = (groupRecord s)[nat n := ATTABLE]"
  "semgid_ok (seatedAt n t s) = semgid_ok s"
  "sem (seatedAt n t s) = (sem s)(WaitForTable n := sem s (WaitForTable n) + 1)"
  by (simp_all add: seatedAt_def)

lemma queued_fields [simp]:
  "nGroups (fSt (queued n s)) = nGroups (fSt s)"
  "assignedTable (fSt (queued n s)) = assignedTable (fSt s)"
  "groupsWaiting (fSt (queued n s)) = groupsWaiting (fSt s) + 1"
  "receptionistRequest (fSt (queued n s)) = receptionistRequest (fSt s)"
  "groupRecord (queued n s) = (groupRecord s)[nat n := WAIT]"
  "semgid_ok (queued n s) = semgid_ok s"
  "sem (queued n s) = sem s"
  by (simp_all add: queued_def)

lemma vacated_fields [simp]:
  "nGroups (fSt (vacated n s)) = nGroups (fSt s)"
  "assignedTable (fSt (vacated n s)) = (assignedTable (fSt s))[nat n := - 1]"
  "groupsWaiting (fSt (vacated n s)) = groupsWaiting (fSt s)"
  "receptionistRequest (fSt (vacated n s)) = receptionistRequest (fSt s)"
  "groupRecord (vacated n s) = (groupRecord s)[nat n := DONE]"
  "semgid_ok (vacated n s) = semgid_ok s"
  "sem (vacated n s) = (sem s)(TableDone (assignedTable (fSt s) ! nat n) :=
                      sem s (TableDone (assignedTable (fSt s) ! nat n)) + 1)"
  by (simp_all add: vacated_def)

lemma consumed_fields [simp]:
  "nGroups (fSt (consumed s)) = nGroups (fSt s)"
  "assignedTable (fSt (consumed s)) = assignedTable (fSt s)"
  "groupsWaiting (fSt (consumed s)) = groupsWaiting (fSt s)"
  "receptionistRequest (fSt (consumed s)) = emptyRequest"
  "groupRecord (consumed s) = groupRecord s"
  "semgid_ok (consumed s) = semgid_ok s"
  "sem (consumed s) = (sem s)(ReceptionistReq := sem s ReceptionistReq - 1,
                    ReceptionistRequestPossible := sem s ReceptionistRequestPossible + 1)"
  by (simp_all add: consumed_def)

lemma paidUp_fields [simp]:
  "nGroups (fSt (paidUp s)) = nGroups (fSt s)"
  "assignedTable (fSt (paidUp s)) = assignedTable (fSt s)"
  "groupsWaiting (fSt (paidUp s)) = groupsWaiting (fSt s) - 1"
  "receptionistRequest (fSt (paidUp s)) = receptionistRequest (fSt s)"
  "groupRecord (paidUp s) = groupRecord s"
  "semgid_ok (paidUp s) = semgid_ok s"
  "sem (paidUp s) = sem s"
  by (simp_all add: paidUp_def)

lemma provide_Inr_cases:
  assumes "provideTableOrWaitingRoom NT n s = Inr s'"
  obtains t where "decideTableOrWait NT n s = Inr t" "t \<noteq> - 1"
      "inRange n (assignedTable (fSt s))" "inRange n (groupRecord s)" "s' = seatedAt n t s"
  | "decideTableOrWait NT n s = Inr (- 1)" "inRange n (groupRecord s)" "s' = queued n s"
proof -
  from provide_Inr [OF assms] obtain t where t: "decideTableOrWait NT n s = Inr t"
    and r: "inRange n (groupRecord s)"
    and c: "if t \<noteq> - 1 then inRange n (assignedTable (fSt s)) \<and> s' = seatedAt n t s
         else s' = queued n s"
    by blast
  show thesis
  proof (cases "t = - 1")
    case True
    with c have "s' = queued n s" by simp
    moreover from t True have "decideTableOrWait NT n s = Inr (- 1)" by simp
    ultimately show thesis using r by (intro that(2))
  next
    case False
    with c have "inRange n (assignedTable (fSt s))" "s' = seatedAt n t s" by simp_all
    with t False r show thesis by (intro that(1))
  qed
qed

lemma receivePayment_Inr_cases:
  assumes "receivePayment NT n s = Inr s'"
  obtains "decideNextGroup (vacated n s) = Inr (- 1)" "s' = vacated n s"
  | g s8 where "decideNextGroup (vacated n s) = Inr g" "g \<noteq> - 1"
      "provideTableOrWaitingRoom NT g (vacated n s) = Inr s8" "s' = paidUp s8"
proof -
  from receivePayment_Inr [OF assms] have
    "receivePayment NT n s =
     andThen (decideNextGroup (vacated n s)) (\<lambda>group.
       if group \<noteq> - 1 then
         andThen (provideTableOrWaitingRoom NT group (vacated n s)) (\<lambda>s8. Inr (paidUp s8))
       else Inr (vacated n s))"
    by (intro receivePayment_ok) simp_all
  with assms obtain g where g: "decideNextGroup (vacated n s) = Inr g"
    and c: "(if g \<noteq> - 1 then
         andThen (provideTableOrWaitingRoom NT g (vacated n s)) (\<lambda>s8. Inr (paidUp s8))
       else Inr (vacated n s)) = Inr s'"
    by (auto simp: andThen_eq_Inr)
  show thesis
  proof (cases "g = - 1")
    case True
    with c have "s' = vacated n s" by simp
    moreover from g True have "decideNextGroup (vacated n s) = Inr (- 1)" by simp
    ultimately show thesis by (rule that(1) [rotated])
  next
    case False
    with c obtain s8 where "provideTableOrWaitingRoom NT g (vacated n s) = Inr s8" "s' = paidUp s8"
      by (auto simp: andThen_eq_Inr)
    with g False that(2) show thesis by blast
  qed
qed

lemma applyOp_request:
  assumes "applyOp NT x s = Inr s'"
  shows "receptionistRequest (fSt s') = emptyRequest \<or>
         receptionistRequest (fSt s') = receptionistRequest (fSt s)"
proof (cases x)
  case WaitForGroup
  with assms obtain r where "waitForGroup s = Inr (r, s')"
    by (auto simp: andThen_eq_Inr)
  from waitForGroup_Inr [OF this] show ?thesis by simp
next
  case (ProvideTableOrWaitingRoom n)
  with assms have "provideTableOrWaitingRoom NT n s = Inr s'" by simp
  then show ?thesis by (cases rule: provide_Inr_cases) simp_all
next
  case (ReceivePayment n)
  with assms have "receivePayment NT n s = Inr s'" by simp
  then show ?thesis
  proof (cases rule: receivePayment_Inr_cases)
    case 1
    then show ?thesis by simp
  next
    case (2 g s8)
    from 2(3) have "receptionistRequest (fSt s8) = receptionistRequest (fSt (vacated n s))"
      by (cases rule: provide_Inr_cases) simp_all
    with 2(4) show ?thesis by simp
  qed
qed

lemma run_request_empty:
  "run NT ops s = Inr s' \<Longrightarrow> receptionistRequest (fSt s) = emptyRequest \<Longrightarrow>
   receptionistRequest (fSt s') = emptyRequest"
proof (induction ops arbitrary: s)
  case Nil
  then show ?case by simp
next
  case (Cons x xs)
  from Cons.prems(1) obtain s1 where 1: "applyOp NT x s = Inr s1" and 2: "run NT xs s1 = Inr s'"
    by (auto simp: andThen_eq_Inr)
  from applyOp_request [OF 1] Cons.prems(2) have "receptionistRequest (fSt s1) = emptyRequest"
    by auto
  with Cons.IH [OF 2] show ?case .
qed

subsection \<open>Lists under a single update\<close>

lemma distinct_filter_update:
  "distinct (filter P xs) \<Longrightarrow> (P v \<Longrightarrow> v \<notin> set xs) \<Longrightarrow> distinct (filter P (xs[i := v]))"
proof (induction xs arbitrary: i)
  case Nil
  then show ?case by simp
next
  case (Cons x xs)
  show ?case
  proof (cases i)
    case 0
    with Cons.prems show ?thesis by (auto split: if_splits)
  next
    case (Suc j)
    have "distinct (filter P (xs[j := v]))"
      using Cons.prems by (intro Cons.IH) (auto split: if_splits)
    moreover have "P x \<Longrightarrow> x \<notin> set (filter P (xs[j := v]))"
    proof
      assume px: "P x" and "x \<in> set (filter P (xs[j := v]))"
      then have "x \<in> set (xs[j := v])" by simp
      then have "x = v \<or> x \<in> set xs"
        using set_update_subset_insert [of xs j v] by auto
      then show False
      proof
        assume "x = v"
        with px Cons.prems(2) show False by simp
      next
        assume "x \<in> set xs"
        with px Cons.prems(1) show False by simp
      qed
    qed
    ultimately show ?thesis using Suc by simp
  qed
qed

lemma distinct_filter_vacate:
  "distinct (filter P xs) \<Longrightarrow> i < length xs \<Longrightarrow> P (xs ! i) \<Longrightarrow> \<not> P v \<Longrightarrow>
   xs ! i \<notin> set (xs[i := v])"
proof (induction xs arbitrary: i)
  case Nil
  then show ?case by simp
next
  case (Cons x xs)
  show ?case
  proof (cases i)
    case 0
    with Cons.prems show ?thesis by auto
  next
    case (Suc j)
    with Cons.prems have j: "j < length xs" "P (xs ! j)" by simp_all
    have "xs ! j \<notin> set (xs[j := v])"
      using Cons.prems j by (intro Cons.IH) (auto split: if_splits)
    moreover have "xs ! j \<noteq> x"
    proof
      assume e: "xs ! j = x"
      with j have "P x" "x \<in> set xs" by auto
      with Cons.prems(1) show False by simp
    qed
    ultimately show ?thesis using Suc by simp
  qed
qed

lemma count_update:
  "i < length xs \<Longrightarrow>
   int (length (filter P (xs[i := v]))) =
     int (length (filter P xs)) - (if P (xs ! i) then 1 else 0) + (if P v then 1 else 0)"
proof (induction xs arbitrary: i)
  case Nil
  then show ?case by simp
next
  case (Cons x xs)
  show ?case
  proof (cases i)
    case 0
    then show ?thesis by simp
  next
    case (Suc j)
    with Cons.prems have "j < length xs" by simp
    from Cons.IH [OF this] Suc show ?thesis by (auto split: if_splits)
  qed
qed

lemma heldTables_simps [simp]:
  "heldTables (seatedAt n t s) = (heldTables s)[nat n := t]"
  "heldTables (queued n s) = heldTables s"
  "heldTables (vacated n s) = (heldTables s)[nat n := - 1]"
  "heldTables (consumed s) = heldTables s"
  "heldTables (paidUp s) = heldTables s"
  by (simp_all add: heldTables_def take_update_swap)

lemma records_simps [simp]:
  "records (seatedAt n t s) = (records s)[nat n := ATTABLE]"
  "records (queued n s) = (records s)[nat n := WAIT]"
  "records (vacated n s) = (records s)[nat n := DONE]"
  "records (consumed s) = records s"
  "records (paidUp s) = records s"
  by (simp_all add: records_def take_update_swap)

lemma tablesUnique_seatedAt:
  assumes "tablesUnique NT s" "0 \<le> t" "t < NT" "t \<notin> set (heldTables s)"
  shows "tablesUnique NT (seatedAt n t s)"
proof -
  have "distinct (filter (\<lambda>t. t \<noteq> - 1) ((heldTables s)[nat n := t]))"
    using assms by (intro distinct_filter_update) (simp_all add: tablesUnique_def)
  moreover have "\<forall>u \<in> set ((heldTables s)[nat n := t]). u \<noteq> - 1 \<longrightarrow> 0 \<le> u \<and> u < NT"
  proof
    fix u assume "u \<in> set ((heldTables s)[nat n := t])"
    then have "u = t \<or> u \<in> set (heldTables s)"
      using set_update_subset_insert [of "heldTables s" "nat n" t] by auto
    with assms show "u \<noteq> - 1 \<longrightarrow> 0 \<le> u \<and> u < NT" by (auto simp: tablesUnique_def)
  qed
  ultimately show ?thesis by (simp add: tablesUnique_def)
qed

lemma tablesUnique_vacated:
  assumes "tablesUnique NT s"
  shows "tablesUnique NT (vacated n s)"
proof -
  have "distinct (filter (\<lambda>t. t \<noteq> - 1) ((heldTables s)[nat n := - 1]))"
    using assms by (intro distinct_filter_update) (simp_all add: tablesUnique_def)
  moreover have "\<forall>u \<in> set ((heldTables s)[nat n := - 1]). u \<noteq> - 1 \<longrightarrow> 0 \<le> u \<and> u < NT"
  proof
    fix u assume "u \<in> set ((heldTables s)[nat n := - 1])"
    then have "u = - 1 \<or> u \<in> set (heldTables s)"
      using set_update_subset_insert [of "heldTables s" "nat n" "- 1"] by auto
    with assms show "u \<noteq> - 1 \<longrightarrow> 0 \<le> u \<and> u < NT" by (auto simp: tablesUnique_def)
  qed
  ultimately show ?thesis by (simp add: tablesUnique_def)
qed

lemma tablesUnique_same [simp]:
  "tablesUnique NT (queued n s) = tablesUnique NT s"
  "tablesUnique NT (consumed s) = tablesUnique NT s"
  "tablesUnique NT (paidUp s) = tablesUnique NT s"
  by (simp_all add: tablesUnique_def)

subsection \<open>Table uniqueness is preserved\<close>

lemma provide_tablesUnique:
  assumes "arraysFit s" "tablesUnique NT s" "provideTableOrWaitingRoom NT n s = Inr s'"
  shows "arraysFit s' \<and> tablesUnique NT s'"
  using assms(3)
proof (cases rule: provide_Inr_cases)
  case (1 t)
  from decide_free [OF assms(1) 1(1,2)] assms(2) have "tablesUnique NT (seatedAt n t s)"
    by (intro tablesUnique_seatedAt) simp_all
  with 1 assms(1) show ?thesis by simp
next
  case 2
  with assms(1,2) show ?thesis by simp
qed

lemma applyOp_tablesUnique:
  assumes "arraysFit s" "tablesUnique NT s" "applyOp NT x s = Inr s'"
  shows "arraysFit s' \<and> tablesUnique NT s'"
proof (cases x)
  case WaitForGroup
  with assms(3) obtain r where "waitForGroup s = Inr (r, s')"
    by (auto simp: andThen_eq_Inr)
  from waitForGroup_Inr [OF this] assms(1,2) show ?thesis by simp
next
  case (ProvideTableOrWaitingRoom n)
  with assms(3) have "provideTableOrWaitingRoom NT n s = Inr s'" by simp
  with assms(1,2) show ?thesis by (rule provide_tablesUnique)
next
  case (ReceivePayment n)
  with assms(3) have "receivePayment NT n s = Inr s'" by simp
  then show ?thesis
  proof (cases rule: receivePayment_Inr_cases)
    case 1
    with assms(1) tablesUnique_vacated [OF assms(2), of n] show ?thesis by simp
  next
    case (2 g s8)
    have "arraysFit (vacated n s)" using assms(1) by simp
    from provide_tablesUnique [OF this tablesUnique_vacated [OF assms(2)] 2(3)] 2(4)
    show ?thesis by simp
  qed
qed

lemma run_tablesUnique:
  "arraysFit s \<Longrightarrow> tablesUnique NT s \<Longrightarrow> run NT ops s = Inr s' \<Longrightarrow>
   arraysFit s' \<and> tablesUnique NT s'"
proof (induction ops arbitrary: s)
  case Nil
  then show ?case by simp
next
  case (Cons x xs)
  from Cons.prems(3) obtain s1 where 1: "applyOp NT x s = Inr s1" and 2: "run NT xs s1 = Inr s'"
    by (auto simp: andThen_eq_Inr)
  from applyOp_tablesUnique [OF Cons.prems(1,2) 1] have "arraysFit s1" "tablesUnique NT s1"
    by simp_all
  from Cons.IH [OF this 2] show ?case .
qed

lemma arraysFit_initState: "ng \<le> int mg \<Longrightarrow> arraysFit (initState mg ng)"
  by (simp add: arraysFit_def initState_def)

lemma heldTables_initState: "heldTables (initState mg ng) = replicate (min (nat ng) mg) (- 1)"
  by (simp add: heldTables_def initState_def min.commute)

lemma records_initState: "records (initState mg ng) = replicate (min (nat ng) mg) TOARRIVE"
  by (simp add: records_def initState_def min.commute)

lemma tablesUnique_initState: "tablesUnique NT (initState mg ng)"
  by (simp add: tablesUnique_def heldTables_initState)

subsection \<open>Recognising the answer of a scan\<close>

lemma firstFrom_foundI:
  assumes "k \<le> t" "t < hi" "P t" "\<forall>j. k \<le> j \<and> j < t \<longrightarrow> \<not> P j"
  shows "firstFrom P hi k t"
proof -
  have n: "\<not> (\<forall>j. k \<le> j \<and> j < hi \<longrightarrow> \<not> P j)" using assms(1-3) by blast
  show ?thesis unfolding firstFrom_def if_not_P [OF n] using assms by blast
qed

lemma firstFrom_noneI:
  assumes "\<forall>j. k \<le> j \<and> j < hi \<longrightarrow> \<not> P j"
  shows "firstFrom P hi k (- 1)"
  unfolding firstFrom_def if_P [OF assms] ..

lemma firstFrom_unique:
  assumes "firstFrom P hi k t" "firstFrom P hi k t'"
  shows "t = t'"
proof (cases "\<forall>j. k \<le> j \<and> j < hi \<longrightarrow> \<not> P j")
  case True
  from assms show ?thesis unfolding firstFrom_def if_P [OF True] by simp
next
  case False
  from assms(1) have a: "k \<le> t" "t < hi" "P t" "\<forall>j. k \<le> j \<and> j < t \<longrightarrow> \<not> P j"
    unfolding firstFrom_def if_not_P [OF False] by blast+
  from assms(2) have b: "k \<le> t'" "t' < hi" "P t'" "\<forall>j. k \<le> j \<and> j < t' \<longrightarrow> \<not> P j"
    unfolding firstFrom_def if_not_P [OF False] by blast+
  have "\<not> t < t'" using a(1,3) b(4) by blast
  moreover have "\<not> t' < t" using b(1,3) a(4) by blast
  ultimately show ?thesis by simp
qed

lemma decide_is:
  assumes "arraysFit s" "0 \<le> t" "t < NT" "t \<notin> set (heldTables s)"
    "\<forall>k. 0 \<le> k \<and> k < t \<longrightarrow> k \<in> set (heldTables s)"
  shows "decideTableOrWait NT n s = Inr t"
proof -
  from scanTables_from [OF assms(1), of NT 0]
  obtain t' where 1: "decideTableOrWait NT n s = Inr t'"
    and 2: "firstFrom (\<lambda>j. j \<notin> set (heldTables s)) NT 0 t'"
    unfolding decideTableOrWait_def by blast
  have "firstFrom (\<lambda>j. j \<notin> set (heldTables s)) NT 0 t"
    using assms(2-5) by (intro firstFrom_foundI) simp_all
  from firstFrom_unique [OF this 2] 1 show ?thesis by simp
qed

lemma decide_is_none:
  assumes "arraysFit s" "\<forall>k. 0 \<le> k \<and> k < NT \<longrightarrow> k \<in> set (heldTables s)"
  shows "decideTableOrWait NT n s = Inr (- 1)"
proof -
  from scanTables_from [OF assms(1), of NT 0]
  obtain t' where 1: "decideTableOrWait NT n s = Inr t'"
    and 2: "firstFrom (\<lambda>j. j \<notin> set (heldTables s)) NT 0 t'"
    unfolding decideTableOrWait_def by blast
  have "firstFrom (\<lambda>j. j \<notin> set (heldTables s)) NT 0 (- 1)"
    using assms(2) by (intro firstFrom_noneI) simp
  from firstFrom_unique [OF this 2] 1 show ?thesis by simp
qed

lemma nextGroup_is:
  assumes "arraysFit s" "0 \<le> g" "g < nGroups (fSt s)" "groupRecord s ! nat g = WAIT"
    "\<forall>j. 0 \<le> j \<and> j < g \<longrightarrow> groupRecord s ! nat j \<noteq> WAIT"
  shows "decideNextGroup s = Inr g"
proof -
  from nextGroupFrom_from [OF assms(1), of 0]
  obtain g' where 1: "decideNextGroup s = Inr g'"
    and 2: "firstFrom (\<lambda>j. groupRecord s ! nat j = WAIT) (nGroups (fSt s)) 0 g'"
    unfolding decideNextGroup_def by auto
  have "firstFrom (\<lambda>j. groupRecord s ! nat j = WAIT) (nGroups (fSt s)) 0 g"
    using assms(2-5) by (intro firstFrom_foundI) simp_all
  from firstFrom_unique [OF this 2] 1 show ?thesis by simp
qed

lemma nextGroup_is_none:
  assumes "arraysFit s"
    "\<forall>j. 0 \<le> j \<and> j < nGroups (fSt s) \<longrightarrow> groupRecord s ! nat j \<noteq> WAIT"
  shows "decideNextGroup s = Inr (- 1)"
proof -
  from nextGroupFrom_from [OF assms(1), of 0]
  obtain g' where 1: "decideNextGroup s = Inr g'"
    and 2: "firstFrom (\<lambda>j. groupRecord s ! nat j = WAIT) (nGroups (fSt s)) 0 g'"
    unfolding decideNextGroup_def by auto
  have "firstFrom (\<lambda>j. groupRecord s ! nat j = WAIT) (nGroups (fSt s)) 0 (- 1)"
    using assms(2) by (intro firstFrom_noneI) simp
  from firstFrom_unique [OF this 2] 1 show ?thesis by simp
qed

lemma nextGroup_found:
  assumes "arraysFit s" "decideNextGroup s = Inr g" "g \<noteq> - 1"
  shows "0 \<le> g \<and> g < nGroups (fSt s) \<and> groupRecord s ! nat g = WAIT"
proof -
  from nextGroupFrom_from [OF assms(1), of 0] assms(2)
  have "firstFrom (\<lambda>j. groupRecord s ! nat j = WAIT) (nGroups (fSt s)) 0 g"
    unfolding decideNextGroup_def by auto
  from firstFrom_found [OF this assms(3)] show ?thesis by simp
qed

lemma nextGroup_none:
  assumes "arraysFit s" "decideNextGroup s = Inr (- 1)" "0 \<le> j" "j < nGroups (fSt s)"
  shows "groupRecord s ! nat j \<noteq> WAIT"
proof -
  from nextGroupFrom_from [OF assms(1), of 0] assms(2)
  have "firstFrom (\<lambda>j. groupRecord s ! nat j = WAIT) (nGroups (fSt s)) 0 (- 1)"
    unfolding decideNextGroup_def by auto
  from firstFrom_none [OF this] assms(3,4) show ?thesis by simp
qed

subsection \<open>Scenario A, step by step\<close>

lemma initState_fields [simp]:
  "nGroups (fSt (initState mg ng)) = ng"
  "assignedTable (fSt (initState mg ng)) = replicate mg (- 1)"
  "groupsWaiting (fSt (initState mg ng)) = 0"
  "receptionistRequest (fSt (initState mg ng)) = emptyRequest"
  "groupRecord (initState mg ng) = replicate mg TOARRIVE"
  "semgid_ok (initState mg ng)"
  "sem (initState mg ng) Mutex = 1"
  "sem (initState mg ng) (WaitForTable n) = 0"
  "sem (initState mg ng) (TableDone t) = 0"
  by (simp_all add: initState_def)

lemma held_init2: "2 \<le> mg \<Longrightarrow> heldTables (initState mg 2) = [- 1, - 1]"
  by (simp add: heldTables_initState numeral_2_eq_2)

lemma records_init2: "2 \<le> mg \<Longrightarrow> records (initState mg 2) = [TOARRIVE, TOARRIVE]"
  by (simp add: records_initState numeral_2_eq_2)

lemma scenario_step1:
  assumes "2 \<le> mg"
  shows "provideTableOrWaitingRoom 1 0 (initState mg 2) = Inr (seatedAt 0 0 (initState mg 2))"
proof -
  have a: "arraysFit (initState mg 2)" using assms by (simp add: arraysFit_initState)
  have "decideTableOrWait 1 0 (initState mg 2) = Inr 0"
    using a assms by (intro decide_is) (simp_all add: held_init2)
  then show ?thesis using assms by (intro provide_seat) (simp_all add: inRange_def)
qed

lemma scenario_step2:
  assumes "2 \<le> mg"
  shows "provideTableOrWaitingRoom 1 1 (seatedAt 0 0 (initState mg 2)) =
     Inr (queued 1 (seatedAt 0 0 (initState mg 2)))"
proof -
  let ?s1 = "seatedAt 0 0 (initState mg 2)"
  have a: "arraysFit ?s1" using assms by (simp add: arraysFit_initState)
  have h: "heldTables ?s1 = [0, - 1]" using assms by (simp add: held_init2)
  have "\<forall>k::int. 0 \<le> k \<and> k < 1 \<longrightarrow> k \<in> set (heldTables ?s1)"
    unfolding h by auto
  with a have "decideTableOrWait 1 1 ?s1 = Inr (- 1)" by (rule decide_is_none)
  then show ?thesis using assms by (intro provide_wait) (simp_all add: inRange_def)
qed

lemma scenario_step3:
  assumes "2 \<le> mg"
  shows "receivePayment 1 0 (queued 1 (seatedAt 0 0 (initState mg 2))) =
     Inr (paidUp (seatedAt 1 0 (vacated 0 (queued 1 (seatedAt 0 0 (initState mg 2))))))"
proof -
  let ?s2 = "queued 1 (seatedAt 0 0 (initState mg 2))"
  let ?v = "vacated 0 ?s2"
  have a: "arraysFit ?v" using assms by (simp add: arraysFit_initState)
  have g: "groupRecord ?v ! nat 0 = DONE" "groupRecord ?v ! nat 1 = WAIT"
    using assms by (simp_all add: DONE_def WAIT_def)
  have "\<forall>j::int. 0 \<le> j \<and> j < 1 \<longrightarrow> groupRecord ?v ! nat j \<noteq> WAIT"
  proof (intro allI impI)
    fix j :: int assume "0 \<le> j \<and> j < 1"
    then have "j = 0" by simp
    with g(1) show "groupRecord ?v ! nat j \<noteq> WAIT" by (simp add: DONE_def WAIT_def)
  qed
  with a g(2) have n: "decideNextGroup ?v = Inr 1" by (intro nextGroup_is) simp_all
  have "decideTableOrWait 1 1 ?v = Inr 0"
    using a assms by (intro decide_is) (simp_all add: held_init2)
  then have p: "provideTableOrWaitingRoom 1 1 ?v = Inr (seatedAt 1 0 ?v)"
    using assms by (intro provide_seat) (simp_all add: inRange_def)
  have "receivePayment 1 0 ?s2 =
     andThen (decideNextGroup ?v) (\<lambda>group.
       if group \<noteq> - 1 then
         andThen (provideTableOrWaitingRoom 1 group ?v) (\<lambda>s8. Inr (paidUp s8))
       else Inr ?v)"
    using assms by (intro receivePayment_ok) (simp_all add: inRange_def)
  then show ?thesis unfolding n andThen_Inr p by simp
qed

lemma scenario_run:
  assumes "2 \<le> mg"
  shows "run 1 scenarioA (initState mg 2) =
     Inr (paidUp (seatedAt 1 0 (vacated 0 (queued 1 (seatedAt 0 0 (initState mg 2))))))"
  by (simp add: scenarioA_def scenario_step1 [OF assms] scenario_step2 [OF assms]
      scenario_step3 [OF assms])

subsection \<open>Seated groups and waiting groups under an update\<close>

lemma record_values_differ [simp]:
  "WAIT \<noteq> ATTABLE" "ATTABLE \<noteq> WAIT" "DONE \<noteq> ATTABLE" "ATTABLE \<noteq> DONE"
  "DONE \<noteq> WAIT" "WAIT \<noteq> DONE" "TOARRIVE \<noteq> WAIT" "WAIT \<noteq> TOARRIVE"
  "TOARRIVE \<noteq> ATTABLE" "ATTABLE \<noteq> TOARRIVE"
  by (simp_all add: WAIT_def ATTABLE_def DONE_def TOARRIVE_def)

lemma lengths_of_groups:
  assumes "arraysFit s"
  shows "length (records s) = nat (nGroups (fSt s))"
    and "length (heldTables s) = nat (nGroups (fSt s))"
  using assms by (auto simp: records_def heldTables_def arraysFit_def)

lemma nth_of_groups:
  assumes "i < nat (nGroups (fSt s))"
  shows "records s ! i = groupRecord s ! i" and "heldTables s ! i = assignedTable (fSt s) ! i"
  using assms by (simp_all add: records_def heldTables_def)

lemma pairs_iff:
  assumes "length rs = length hs"
  shows "(\<forall>(r, t) \<in> set (zip rs hs). r = a \<longrightarrow> t \<noteq> b) \<longleftrightarrow>
         (\<forall>i < length rs. rs ! i = a \<longrightarrow> hs ! i \<noteq> b)"
proof
  assume l: "\<forall>(r, t) \<in> set (zip rs hs). r = a \<longrightarrow> t \<noteq> b"
  show "\<forall>i < length rs. rs ! i = a \<longrightarrow> hs ! i \<noteq> b"
  proof (intro allI impI)
    fix i assume i: "i < length rs" and r: "rs ! i = a"
    then have "(rs ! i, hs ! i) \<in> set (zip rs hs)"
      using assms by (auto simp: set_zip)
    with l r show "hs ! i \<noteq> b" by auto
  qed
next
  assume r: "\<forall>i < length rs. rs ! i = a \<longrightarrow> hs ! i \<noteq> b"
  show "\<forall>(r, t) \<in> set (zip rs hs). r = a \<longrightarrow> t \<noteq> b"
  proof (intro ballI)
    fix p assume "p \<in> set (zip rs hs)"
    then obtain i where "i < length rs" "p = (rs ! i, hs ! i)"
      using assms by (auto simp: set_zip)
    with r show "case p of (r, t) \<Rightarrow> r = a \<longrightarrow> t \<noteq> b" by simp
  qed
qed

lemma pairs_update:
  assumes "length rs = length hs"
    "\<forall>i < length rs. rs ! i = a \<longrightarrow> hs ! i \<noteq> b"
    "r' = a \<longrightarrow> h' \<noteq> b"
  shows "\<forall>i < length rs. (rs[k := r']) ! i = a \<longrightarrow> (hs[k := h']) ! i \<noteq> b"
proof (intro allI impI)
  fix i assume i: "i < length rs" and r: "(rs[k := r']) ! i = a"
  show "(hs[k := h']) ! i \<noteq> b"
  proof (cases "i = k")
    case True
    with i r assms(1,3) show ?thesis by simp
  next
    case False
    with i r assms(2) show ?thesis by simp
  qed
qed

lemma seatedHoldTable_update:
  assumes "arraysFit s" "seatedHoldTable s" "r' = ATTABLE \<longrightarrow> h' \<noteq> - 1"
    "arraysFit s'" "records s' = (records s)[k := r']" "heldTables s' = (heldTables s)[k := h']"
  shows "seatedHoldTable s'"
proof -
  note l = lengths_of_groups [OF assms(1)]
  have e: "length (records s) = length (heldTables s)" using l by simp
  from assms(2) have "\<forall>i < length (records s). records s ! i = ATTABLE \<longrightarrow> heldTables s ! i \<noteq> - 1"
    unfolding seatedHoldTable_def pairs_iff [OF e] .
  from pairs_update [OF e this assms(3), of k]
  have "\<forall>i < length (records s'). records s' ! i = ATTABLE \<longrightarrow> heldTables s' ! i \<noteq> - 1"
    unfolding assms(5,6) by simp
  moreover have "length (records s') = length (heldTables s')"
    unfolding assms(5,6) using e by simp
  ultimately show ?thesis unfolding seatedHoldTable_def by (simp only: pairs_iff)
qed

lemma seatedHoldTable_seatedAt:
  assumes "arraysFit s" "seatedHoldTable s" "t \<noteq> - 1"
  shows "seatedHoldTable (seatedAt n t s)"
  by (rule seatedHoldTable_update [OF assms(1,2), of ATTABLE t _ "nat n"])
    (use assms in simp_all)

lemma seatedHoldTable_queued:
  assumes "arraysFit s" "seatedHoldTable s"
  shows "seatedHoldTable (queued n s)"
  by (rule seatedHoldTable_update [OF assms(1,2), of WAIT "heldTables s ! nat n" _ "nat n"])
    (use assms in simp_all)

lemma seatedHoldTable_vacated:
  assumes "arraysFit s" "seatedHoldTable s"
  shows "seatedHoldTable (vacated n s)"
  by (rule seatedHoldTable_update [OF assms(1,2), of DONE "- 1" _ "nat n"])
    (use assms in simp_all)

lemma seatedHoldTable_same [simp]:
  "seatedHoldTable (consumed s) = seatedHoldTable s"
  "seatedHoldTable (paidUp s) = seatedHoldTable s"
  by (simp_all add: seatedHoldTable_def)

lemma waiting_update:
  assumes "arraysFit s" "0 \<le> n" "n < nGroups (fSt s)"
  shows "int (length (filter (\<lambda>r. r = WAIT) ((records s)[nat n := v]))) =
     int (waitingGroups s) - (if groupRecord s ! nat n = WAIT then 1 else 0)
       + (if v = WAIT then 1 else 0)"
proof -
  have i: "nat n < nat (nGroups (fSt s))" using assms(2,3) by simp
  then have "nat n < length (records s)" using lengths_of_groups(1) [OF assms(1)] by simp
  from count_update [OF this, of "\<lambda>r. r = WAIT" v] nth_of_groups(1) [OF i]
  show ?thesis by (simp add: waitingGroups_def)
qed

lemma waitingGroups_same [simp]:
  "waitingGroups (consumed s) = waitingGroups s"
  "waitingGroups (paidUp s) = waitingGroups s"
  by (simp_all add: waitingGroups_def)

subsection \<open>The waiting count is preserved\<close>

lemma seat_waiting:
  assumes "arraysFit s" "0 \<le> n" "n < nGroups (fSt s)"
  shows "int (waitingGroups (seatedAt n t s)) =
     int (waitingGroups s) - (if groupRecord s ! nat n = WAIT then 1 else 0)"
  using waiting_update [OF assms, of ATTABLE] by (simp add: waitingGroups_def)

lemma queue_waiting:
  assumes "arraysFit s" "0 \<le> n" "n < nGroups (fSt s)"
  shows "int (waitingGroups (queued n s)) =
     int (waitingGroups s) - (if groupRecord s ! nat n = WAIT then 1 else 0) + 1"
  using waiting_update [OF assms, of WAIT] by (simp add: waitingGroups_def)

lemma vacate_waiting:
  assumes "arraysFit s" "0 \<le> n" "n < nGroups (fSt s)"
  shows "int (waitingGroups (vacated n s)) =
     int (waitingGroups s) - (if groupRecord s ! nat n = WAIT then 1 else 0)"
  using waiting_update [OF assms, of DONE] by (simp add: waitingGroups_def)

lemma group_index:
  assumes "arraysFit s" "0 \<le> n" "n < nGroups (fSt s)"
  shows "nat n < length (groupRecord s)" "nat n < length (assignedTable (fSt s))"
    "nat n < nat (nGroups (fSt s))"
  using assms by (auto simp: arraysFit_def)

lemma provide_quiescent:
  assumes "quiescent NT s" "0 \<le> n" "n < nGroups (fSt s)"
    "groupRecord s ! nat n \<noteq> WAIT" "provideTableOrWaitingRoom NT n s = Inr s'"
  shows "quiescent NT s' \<and>
     groupsWaiting (fSt s') =
       groupsWaiting (fSt s) + (if groupRecord s' ! nat n = WAIT then 1 else 0)"
proof -
  from assms(1) have a: "arraysFit s" and u: "tablesUnique NT s" and h: "seatedHoldTable s"
    and c: "groupsWaiting (fSt s) = int (waitingGroups s)"
    by (simp_all add: quiescent_def)
  note i = group_index [OF a assms(2,3)]
  from assms(5) show ?thesis
  proof (cases rule: provide_Inr_cases)
    case (1 t)
    from decide_free [OF a 1(1,2)] u have "tablesUnique NT (seatedAt n t s)"
      by (intro tablesUnique_seatedAt) simp_all
    moreover have "seatedHoldTable (seatedAt n t s)"
      using a h 1(2) by (rule seatedHoldTable_seatedAt)
    moreover have "int (waitingGroups (seatedAt n t s)) = int (waitingGroups s)"
      using seat_waiting [OF a assms(2,3)] assms(4) by simp
    moreover have "groupRecord (seatedAt n t s) ! nat n = ATTABLE"
      using i by simp
    ultimately show ?thesis using 1(5) a c by (simp add: quiescent_def)
  next
    case 2
    have "seatedHoldTable (queued n s)" using a h by (rule seatedHoldTable_queued)
    moreover have "int (waitingGroups (queued n s)) = int (waitingGroups s) + 1"
      using queue_waiting [OF a assms(2,3)] assms(4) by simp
    moreover have "groupRecord (queued n s) ! nat n = WAIT"
      using i by simp
    ultimately show ?thesis using 2(3) a u c by (simp add: quiescent_def)
  qed
qed

lemma reassignedI:
  assumes "i < length (records s)" "i < length (records s')"
    "records s ! i = WAIT" "records s' ! i = ATTABLE"
  shows "reassigned s s'"
proof -
  have "(records s ! i, records s' ! i) \<in> set (zip (records s) (records s'))"
    using assms(1,2) by (auto simp: set_zip)
  with assms(3,4) show ?thesis unfolding reassigned_def by force
qed

lemma not_reassigned_vacated: "\<not> reassigned s (vacated n s)"
proof
  assume "reassigned s (vacated n s)"
  then obtain i where i: "i < length (records s)"
    and w: "records s ! i = WAIT" and t: "(records s)[nat n := DONE] ! i = ATTABLE"
    unfolding reassigned_def by (auto simp: set_zip)
  show False
  proof (cases "i = nat n")
    case True
    with i t show False by simp
  next
    case False
    with w t show False by simp
  qed
qed

lemma vacated_frees:
  assumes "quiescent NT s" "0 \<le> n" "n < nGroups (fSt s)" "groupRecord s ! nat n = ATTABLE"
  shows "quiescent NT (vacated n s)"
    and "0 \<le> assignedTable (fSt s) ! nat n" "assignedTable (fSt s) ! nat n < NT"
    and "assignedTable (fSt s) ! nat n \<notin> set (heldTables (vacated n s))"
proof -
  from assms(1) have a: "arraysFit s" and u: "tablesUnique NT s" and h: "seatedHoldTable s"
    and c: "groupsWaiting (fSt s) = int (waitingGroups s)"
    by (simp_all add: quiescent_def)
  note i = group_index [OF a assms(2,3)]
  note l = lengths_of_groups [OF a]
  note e = nth_of_groups [OF i(3)]
  have "int (waitingGroups (vacated n s)) = int (waitingGroups s)"
    using vacate_waiting [OF a assms(2,3)] assms(4) by simp
  with a c tablesUnique_vacated [OF u] seatedHoldTable_vacated [OF a h]
  show "quiescent NT (vacated n s)" by (simp add: quiescent_def)
  have le: "length (records s) = length (heldTables s)" using l by simp
  from h have "\<forall>i < length (records s). records s ! i = ATTABLE \<longrightarrow> heldTables s ! i \<noteq> - 1"
    unfolding seatedHoldTable_def pairs_iff [OF le] .
  moreover have "nat n < length (records s)" using i(3) l by simp
  ultimately have "records s ! nat n = ATTABLE \<longrightarrow> heldTables s ! nat n \<noteq> - 1" by blast
  with e assms(4) have n1: "heldTables s ! nat n \<noteq> - 1" by simp
  have m: "heldTables s ! nat n \<in> set (heldTables s)"
    using i(3) l by (intro nth_mem) simp
  with u n1 have "0 \<le> heldTables s ! nat n \<and> heldTables s ! nat n < NT"
    by (simp add: tablesUnique_def)
  then show "0 \<le> assignedTable (fSt s) ! nat n" "assignedTable (fSt s) ! nat n < NT"
    using e by simp_all
  have "heldTables s ! nat n \<notin> set ((heldTables s)[nat n := - 1])"
    using u i(3) l n1
    by (intro distinct_filter_vacate [where P = "\<lambda>t. t \<noteq> - 1"]) (simp_all add: tablesUnique_def)
  then show "assignedTable (fSt s) ! nat n \<notin> set (heldTables (vacated n s))"
    using e by simp
qed

lemma receivePayment_quiescent:
  assumes "quiescent NT s" "0 \<le> n" "n < nGroups (fSt s)"
    "groupRecord s ! nat n = ATTABLE" "receivePayment NT n s = Inr s'"
  shows "quiescent NT s' \<and>
     groupsWaiting (fSt s') = groupsWaiting (fSt s) + (if reassigned s s' then - 1 else 0)"
proof -
  let ?v = "vacated n s"
  from assms(1) have a: "arraysFit s" by (simp add: quiescent_def)
  note i = group_index [OF a assms(2,3)]
  note v = vacated_frees [OF assms(1-4)]
  from v(1) have av: "arraysFit ?v" and uv: "tablesUnique NT ?v" and hv: "seatedHoldTable ?v"
    and cv: "groupsWaiting (fSt ?v) = int (waitingGroups ?v)"
    by (simp_all add: quiescent_def)
  from assms(5) show ?thesis
  proof (cases rule: receivePayment_Inr_cases)
    case 1
    with v(1) not_reassigned_vacated [of s n] show ?thesis by simp
  next
    case (2 g s8)
    from nextGroup_found [OF av 2(1,2)]
    have g: "0 \<le> g" "g < nGroups (fSt ?v)" and w: "groupRecord ?v ! nat g = WAIT"
      by simp_all
    note j = group_index [OF av g]
    have ne: "nat g \<noteq> nat n"
    proof
      assume "nat g = nat n"
      with w i(1) show False by simp
    qed
    with w have ws: "groupRecord s ! nat g = WAIT" by simp
    from 2(3) show ?thesis
    proof (cases rule: provide_Inr_cases)
      case (1 t)
      from decide_free [OF av 1(1,2)] uv have "tablesUnique NT (seatedAt g t ?v)"
        by (intro tablesUnique_seatedAt) simp_all
      moreover have "seatedHoldTable (seatedAt g t ?v)"
        using av hv 1(2) by (rule seatedHoldTable_seatedAt)
      moreover have "int (waitingGroups (seatedAt g t ?v)) = int (waitingGroups ?v) - 1"
        using seat_waiting [OF av g] w by simp
      moreover have "reassigned s s'"
      proof (rule reassignedI [of "nat g"])
        show "nat g < length (records s)"
          using j(3) lengths_of_groups(1) [OF a] by simp
        show "nat g < length (records s')"
          using j(3) lengths_of_groups(1) [OF a] 2(4) 1(5) by simp
        show "records s ! nat g = WAIT"
          using ws j(3) by (simp add: records_def)
        show "records s' ! nat g = ATTABLE"
          using j(1,3) 2(4) 1(5) by (simp add: records_def)
      qed
      ultimately show ?thesis using 2(4) 1(5) av cv by (simp add: quiescent_def)
    next
      case 2
      from decide_none [OF av 2(1) v(2,3)] v(4) show ?thesis by simp
    qed
  qed
qed

lemma applyOp_quiescent:
  assumes "quiescent NT s" "requested x s" "applyOp NT x s = Inr s'"
  shows "quiescent NT s' \<and>
     groupsWaiting (fSt s') = groupsWaiting (fSt s) + waitingChange x s s'"
proof (cases x)
  case WaitForGroup
  with assms(3) obtain r where "waitForGroup s = Inr (r, s')"
    by (auto simp: andThen_eq_Inr)
  from waitForGroup_Inr [OF this] assms(1) WaitForGroup show ?thesis
    by (simp add: quiescent_def)
next
  case (ProvideTableOrWaitingRoom n)
  with assms(2,3) have "0 \<le> n" "n < nGroups (fSt s)" "groupRecord s ! nat n \<noteq> WAIT"
    "provideTableOrWaitingRoom NT n s = Inr s'"
    by simp_all
  from provide_quiescent [OF assms(1) this] ProvideTableOrWaitingRoom show ?thesis by simp
next
  case (ReceivePayment n)
  with assms(2,3) have "0 \<le> n" "n < nGroups (fSt s)" "groupRecord s ! nat n = ATTABLE"
    "receivePayment NT n s = Inr s'"
    by simp_all
  from receivePayment_quiescent [OF assms(1) this] ReceivePayment show ?thesis by simp
qed

lemma run_quiescent:
  "quiescent NT s \<Longrightarrow> conformant NT ops s \<Longrightarrow> run NT ops s = Inr s' \<Longrightarrow> quiescent NT s'"
proof (induction ops arbitrary: s)
  case Nil
  then show ?case by simp
next
  case (Cons x xs)
  from Cons.prems(3) obtain s1 where 1: "applyOp NT x s = Inr s1" and 2: "run NT xs s1 = Inr s'"
    by (auto simp: andThen_eq_Inr)
  from Cons.prems(2) 1 have r: "requested x s" and c: "conformant NT xs s1" by simp_all
  from applyOp_quiescent [OF Cons.prems(1) r 1] have "quiescent NT s1" by simp
  from Cons.IH [OF this c 2] show ?case .
qed

lemma seatedHoldTable_initState: "seatedHoldTable (initState mg ng)"
  unfolding seatedHoldTable_def records_initState
  by (auto dest!: set_zip_leftD)

lemma quiescent_initState: "ng \<le> int mg \<Longrightarrow> quiescent NT (initState mg ng)"
  by (simp add: quiescent_def arraysFit_initState tablesUnique_initState
      seatedHoldTable_initState waitingGroups_def records_initState)

subsection \<open>The slots beyond the configured groups\<close>

lemma provide_beyond:
  assumes "0 \<le> n" "n < nGroups (fSt s)" "provideTableOrWaitingRoom NT n s = Inr s'"
  shows "nGroups (fSt s') = nGroups (fSt s) \<and>
     drop (nat (nGroups (fSt s))) (assignedTable (fSt s')) =
     drop (nat (nGroups (fSt s))) (assignedTable (fSt s))"
  using assms(3)
proof (cases rule: provide_Inr_cases)
  case (1 t)
  have "nat n < nat (nGroups (fSt s))" using assms(1,2) by simp
  with 1(5) show ?thesis by (simp add: drop_update_cancel)
next
  case 2
  then show ?thesis by simp
qed

lemma applyOp_beyond:
  assumes "arraysFit s" "idInRange (nGroups (fSt s)) x" "applyOp NT x s = Inr s'"
  shows "nGroups (fSt s') = nGroups (fSt s) \<and>
     drop (nat (nGroups (fSt s))) (assignedTable (fSt s')) =
     drop (nat (nGroups (fSt s))) (assignedTable (fSt s))"
proof (cases x)
  case WaitForGroup
  with assms(3) obtain r where "waitForGroup s = Inr (r, s')"
    by (auto simp: andThen_eq_Inr)
  from waitForGroup_Inr [OF this] show ?thesis by simp
next
  case (ProvideTableOrWaitingRoom n)
  with assms(2,3) show ?thesis by (intro provide_beyond) simp_all
next
  case (ReceivePayment n)
  with assms(2) have n: "nat n < nat (nGroups (fSt s))" by simp
  then have v: "drop (nat (nGroups (fSt s))) (assignedTable (fSt (vacated n s))) =
     drop (nat (nGroups (fSt s))) (assignedTable (fSt s))"
    by (simp add: drop_update_cancel)
  from ReceivePayment assms(3) have "receivePayment NT n s = Inr s'" by simp
  then show ?thesis
  proof (cases rule: receivePayment_Inr_cases)
    case 1
    with v show ?thesis by simp
  next
    case (2 g s8)
    have a: "arraysFit (vacated n s)" using assms(1) by simp
    from nextGroup_found [OF a 2(1,2)] have "0 \<le> g" "g < nGroups (fSt (vacated n s))"
      by simp_all
    from provide_beyond [OF this 2(3)] v 2(4) show ?thesis by simp
  qed
qed

lemma run_beyond:
  "arraysFit s \<Longrightarrow> tablesUnique NT s \<Longrightarrow> \<forall>x \<in> set ops. idInRange (nGroups (fSt s)) x \<Longrightarrow>
   run NT ops s = Inr s' \<Longrightarrow>
   nGroups (fSt s') = nGroups (fSt s) \<and>
     drop (nat (nGroups (fSt s))) (assignedTable (fSt s')) =
     drop (nat (nGroups (fSt s))) (assignedTable (fSt s))"
proof (induction ops arbitrary: s)
  case Nil
  then show ?case by simp
next
  case (Cons x xs)
  from Cons.prems(4) obtain s1 where 1: "applyOp NT x s = Inr s1" and 2: "run NT xs s1 = Inr s'"
    by (auto simp: andThen_eq_Inr)
  from Cons.prems(3) have x: "idInRange (nGroups (fSt s)) x" by simp
  note b = applyOp_beyond [OF Cons.prems(1) x 1]
  from applyOp_tablesUnique [OF Cons.prems(1,2) 1] have u: "arraysFit s1" "tablesUnique NT s1"
    by simp_all
  from Cons.prems(3) b have "\<forall>x \<in> set xs. idInRange (nGroups (fSt s1)) x" by simp
  from Cons.IH [OF u this 2] b show ?case by simp
qed

text \<open>
  The slots of \<open>assignedTable\<close> beyond \<open>nGroups\<close> belong to no group. When they
  start at \<open>-1\<close> and every operation is run for a configured group, they stay at
  \<open>-1\<close>, and table uniqueness holds of the whole array.
\<close>

lemma table_uniqueness_whole_array:
  assumes "arraysFit s0" "tablesUnique NT s0"
    "\<forall>t \<in> set (drop (nat (nGroups (fSt s0))) (assignedTable (fSt s0))). t = - 1"
    "\<forall>x \<in> set ops. idInRange (nGroups (fSt s0)) x"
    "run NT ops s0 = Inr s"
  shows "distinct (filter (\<lambda>t. t \<noteq> - 1) (assignedTable (fSt s))) \<and>
     (\<forall>t \<in> set (assignedTable (fSt s)). t \<noteq> - 1 \<longrightarrow> 0 \<le> t \<and> t < NT)"
proof -
  let ?N = "nat (nGroups (fSt s))"
  from run_beyond [OF assms(1,2,4,5)] assms(3)
  have b: "\<forall>t \<in> set (drop ?N (assignedTable (fSt s))). t = - 1" by simp
  then have f: "filter (\<lambda>t. t \<noteq> - 1) (drop ?N (assignedTable (fSt s))) = []"
    by (simp add: filter_empty_conv)
  from run_tablesUnique [OF assms(1,2,5)] have u: "tablesUnique NT s" by simp
  have "assignedTable (fSt s) = heldTables s @ drop ?N (assignedTable (fSt s))"
    by (simp add: heldTables_def)
  then have "filter (\<lambda>t. t \<noteq> - 1) (assignedTable (fSt s)) =
      filter (\<lambda>t. t \<noteq> - 1) (heldTables s) @ filter (\<lambda>t. t \<noteq> - 1) (drop ?N (assignedTable (fSt s)))"
    by (metis filter_append)
  with f u have 1: "distinct (filter (\<lambda>t. t \<noteq> - 1) (assignedTable (fSt s)))"
    by (simp add: tablesUnique_def)
  have "set (assignedTable (fSt s)) = set (heldTables s) \<union> set (drop ?N (assignedTable (fSt s)))"
    unfolding heldTables_def by (metis append_take_drop_id set_append)
  with b u have 2: "\<forall>t \<in> set (assignedTable (fSt s)). t \<noteq> - 1 \<longrightarrow> 0 \<le> t \<and> t < NT"
    by (auto simp: tablesUnique_def)
  from 1 2 show ?thesis by simp
qed

section \<open>Properties of the specification\<close>

subsection \<open>The decision functions\<close>

lemma arraysFit_twoSeated: "arraysFit twoSeated"
  by (simp add: arraysFit_def twoSeated_def initState_def)

lemma arraysFit_twoWaiting: "arraysFit twoWaiting"
  by (simp add: arraysFit_def twoWaiting_def initState_def)

lemma heldTables_twoSeated: "heldTables twoSeated = [0, 2, - 1]"
  by (simp add: heldTables_def twoSeated_def initState_def)

text \<open>
  C6 (\<open>decideTableOrWait\<close>). The function only reads the state and returns an
  index. When the arrays hold the configured groups, it returns the smallest table
  index in \<open>[0, NT)\<close> that no group \<open>0 .. nGroups - 1\<close> has in \<open>assignedTable\<close>,
  and \<open>-1\<close> when every table index is some group's entry.
\<close>

theorem decideTableOrWait_smallest_free:
  assumes "arraysFit s"
  shows "\<exists>t. decideTableOrWait NT n s = Inr t \<and>
     (if \<forall>k. 0 \<le> k \<and> k < NT \<longrightarrow> k \<in> set (heldTables s) then t = - 1
      else 0 \<le> t \<and> t < NT \<and> t \<notin> set (heldTables s) \<and>
           (\<forall>k. 0 \<le> k \<and> k < t \<longrightarrow> k \<in> set (heldTables s)))"
  using scanTables_from [OF assms, of NT 0]
  unfolding decideTableOrWait_def firstFrom_def not_not .

theorem decideTableOrWait_smallest_free_witness:
  "arraysFit twoSeated \<and> decideTableOrWait 3 0 twoSeated = Inr 1"
proof -
  from decideTableOrWait_smallest_free [OF arraysFit_twoSeated, of 3 0]
  obtain t where t: "decideTableOrWait 3 0 twoSeated = Inr t"
    and p: "if \<forall>k. 0 \<le> k \<and> k < 3 \<longrightarrow> k \<in> set (heldTables twoSeated) then t = - 1
      else 0 \<le> t \<and> t < 3 \<and> t \<notin> set (heldTables twoSeated) \<and>
           (\<forall>k. 0 \<le> k \<and> k < t \<longrightarrow> k \<in> set (heldTables twoSeated))"
    by blast
  have "\<not> (\<forall>k::int. 0 \<le> k \<and> k < 3 \<longrightarrow> k \<in> set (heldTables twoSeated))"
    by (simp add: heldTables_twoSeated) (rule exI [of _ 1], simp)
  with p have "0 \<le> t" "t < 3" "t \<notin> set (heldTables twoSeated)" by simp_all
  then have "t = 1" by (simp add: heldTables_twoSeated)
  with t arraysFit_twoSeated show ?thesis by simp
qed

text \<open>
  C7 (\<open>decideNextGroup\<close>). When the arrays hold the configured groups, the function
  returns the smallest group index in \<open>[0, nGroups)\<close> whose \<open>groupRecord\<close> is
  WAIT, whatever the order in which the groups were queued, and \<open>-1\<close> when no
  group's record is WAIT.
\<close>

theorem decideNextGroup_first_waiting:
  assumes "arraysFit s"
  shows "\<exists>g. decideNextGroup s = Inr g \<and>
     (if \<forall>j. 0 \<le> j \<and> j < nGroups (fSt s) \<longrightarrow> groupRecord s ! nat j \<noteq> WAIT then g = - 1
      else 0 \<le> g \<and> g < nGroups (fSt s) \<and> groupRecord s ! nat g = WAIT \<and>
           (\<forall>j. 0 \<le> j \<and> j < g \<longrightarrow> groupRecord s ! nat j \<noteq> WAIT))"
  using nextGroupFrom_from [OF assms, of 0]
  unfolding decideNextGroup_def firstFrom_def by simp

theorem decideNextGroup_first_waiting_witness:
  "arraysFit twoWaiting \<and> decideNextGroup twoWaiting = Inr 2"
proof -
  have n: "nGroups (fSt twoWaiting) = 4" and r: "groupRecord twoWaiting = [DONE, ATTABLE, WAIT, WAIT]"
    by (simp_all add: twoWaiting_def initState_def)
  from decideNextGroup_first_waiting [OF arraysFit_twoWaiting]
  obtain g where g: "decideNextGroup twoWaiting = Inr g"
    and p: "if \<forall>j. 0 \<le> j \<and> j < 4 \<longrightarrow> [DONE, ATTABLE, WAIT, WAIT] ! nat j \<noteq> WAIT then g = - 1
      else 0 \<le> g \<and> g < 4 \<and> [DONE, ATTABLE, WAIT, WAIT] ! nat g = WAIT \<and>
           (\<forall>j. 0 \<le> j \<and> j < g \<longrightarrow> [DONE, ATTABLE, WAIT, WAIT] ! nat j \<noteq> WAIT)"
    unfolding n r by blast
  have "\<not> (\<forall>j::int. 0 \<le> j \<and> j < 4 \<longrightarrow> [DONE, ATTABLE, WAIT, WAIT] ! nat j \<noteq> WAIT)"
    by simp (rule exI [of _ 2], simp)
  with p have a: "0 \<le> g" "g < 4" "[DONE, ATTABLE, WAIT, WAIT] ! nat g = WAIT"
    and b: "\<forall>j. 0 \<le> j \<and> j < g \<longrightarrow> [DONE, ATTABLE, WAIT, WAIT] ! nat j \<noteq> WAIT"
    by simp_all
  from a have c: "g = 0 \<or> g = 1 \<or> g = 2 \<or> g = 3" by arith
  have "g \<noteq> 0" "g \<noteq> 1" using a(3) by (auto simp: DONE_def ATTABLE_def WAIT_def)
  moreover have "g \<noteq> 3" using b [rule_format, of 2] by auto
  ultimately have "g = 2" using c by simp
  with g arraysFit_twoWaiting show ?thesis by simp
qed

text \<open>
  C10 (the requester is not read). For every state and every two group ids,
  \<open>decideTableOrWait\<close> gives the same answer: the parameter \<open>n\<close> takes no part
  in the decision.
\<close>

theorem decideTableOrWait_requester_independent:
  "decideTableOrWait NT m s = decideTableOrWait NT n s"
  by (simp add: decideTableOrWait_def)

subsection \<open>The operations\<close>

lemma decide_initState_2_2: "decideTableOrWait 1 n (initState 2 2) = Inr 0"
  by (simp add: decideTableOrWait_def scanTables.simps notInUse.simps initState_def inRange_def)

text \<open>
  C3 (\<open>provideTableOrWaitingRoom\<close>). Let the semaphore set be valid, the mutex
  free and \<open>n\<close> an index of the arrays, let \<open>decideTableOrWait\<close> answer \<open>t\<close>,
  and, when no table is free, let \<open>groupsWaiting\<close> be below \<open>INT_MAX\<close>. Then
  the operation returns, and in the state \<open>s5\<close> at the end of its critical
  section, where the mutex is still held: if \<open>t\<close> is a table, \<open>assignedTable[n]\<close>
  is \<open>t\<close>, \<open>groupRecord[n]\<close> is ATTABLE and the semaphore \<open>waitForTable[n]\<close> has
  been raised by one; otherwise \<open>groupsWaiting\<close> has grown by exactly one, to a
  value that is still an int, \<open>groupRecord[n]\<close> is WAIT and no \<open>waitForTable\<close>
  semaphore has changed. The state returned is \<open>s5\<close> with the mutex released.
\<close>

theorem provideTableOrWaitingRoom_post:
  assumes "semgid_ok s" "0 < sem s Mutex"
    "inRange n (assignedTable (fSt s))" "inRange n (groupRecord s)"
    "decideTableOrWait NT n s = Inr t"
    "t = - 1 \<longrightarrow> groupsWaiting (fSt s) < INT_MAX"
  shows "\<exists>s5. assignOrQueue NT n (s\<lparr>sem := (sem s)(Mutex := sem s Mutex - 1)\<rparr>) = Inr s5 \<and>
     sem s5 Mutex = sem s Mutex - 1 \<and>
     provideTableOrWaitingRoom NT n s = Inr (s5\<lparr>sem := (sem s5)(Mutex := sem s5 Mutex + 1)\<rparr>) \<and>
     (if t \<noteq> - 1 then
        assignedTable (fSt s5) = (assignedTable (fSt s))[nat n := t] \<and>
        groupRecord s5 = (groupRecord s)[nat n := ATTABLE] \<and>
        sem s5 (WaitForTable n) = sem s (WaitForTable n) + 1 \<and>
        groupsWaiting (fSt s5) = groupsWaiting (fSt s)
      else
        groupsWaiting (fSt s5) = groupsWaiting (fSt s) + 1 \<and>
        groupsWaiting (fSt s5) \<le> INT_MAX \<and>
        groupRecord s5 = (groupRecord s)[nat n := WAIT] \<and>
        assignedTable (fSt s5) = assignedTable (fSt s) \<and>
        (\<forall>m. sem s5 (WaitForTable m) = sem s (WaitForTable m)))"
proof -
  let ?s1 = "s\<lparr>sem := (sem s)(Mutex := sem s Mutex - 1)\<rparr>"
  have 1: "semDown Mutex s = Inr ?s1" using assms(1,2) by (simp add: semDown_ok)
  have d: "decideTableOrWait NT n ?s1 = Inr t" using assms(5) by simp
  show ?thesis
  proof (cases "t = - 1")
    case True
    have 2: "assignOrQueue NT n ?s1 = Inr (queued n ?s1)"
      using d True assms(4) by (intro assignOrQueue_wait) simp_all
    have "provideTableOrWaitingRoom NT n s =
        Inr ((queued n ?s1)\<lparr>sem := (sem (queued n ?s1))(Mutex := sem (queued n ?s1) Mutex + 1)\<rparr>)"
      unfolding provideTableOrWaitingRoom_def 1 andThen_Inr 2 using assms(1)
      by (simp add: semUp_def queued_def)
    moreover have "groupsWaiting (fSt (queued n ?s1)) \<le> INT_MAX"
      using assms(6) True by simp
    ultimately show ?thesis using 2 True by (simp add: queued_def)
  next
    case False
    have 2: "assignOrQueue NT n ?s1 = Inr (seatedAt n t ?s1)"
      using d False assms(1,3,4) by (intro assignOrQueue_seat) simp_all
    have "provideTableOrWaitingRoom NT n s =
        Inr ((seatedAt n t ?s1)\<lparr>sem := (sem (seatedAt n t ?s1))(Mutex := sem (seatedAt n t ?s1) Mutex + 1)\<rparr>)"
      unfolding provideTableOrWaitingRoom_def 1 andThen_Inr 2 using assms(1)
      by (simp add: semUp_def seatedAt_def)
    with 2 False show ?thesis by (simp add: seatedAt_def)
  qed
qed

theorem provideTableOrWaitingRoom_post_witness:
  "(\<exists>s'. provideTableOrWaitingRoom 1 0 (initState 2 2) = Inr s' \<and>
      assignedTable (fSt s') = [0, - 1] \<and> groupRecord s' = [ATTABLE, TOARRIVE] \<and>
      groupsWaiting (fSt s') = 0 \<and>
      sem s' (WaitForTable 0) = 1 \<and> sem s' Mutex = 1) \<and>
   (\<exists>s'. provideTableOrWaitingRoom 1 1 (seatedAt 0 0 (initState 2 2)) = Inr s' \<and>
      assignedTable (fSt s') = [0, - 1] \<and> groupRecord s' = [ATTABLE, WAIT] \<and>
      groupsWaiting (fSt s') = 1 \<and>
      sem s' (WaitForTable 1) = 0 \<and> sem s' Mutex = 1)"
proof -
  let ?s0 = "initState 2 2"
  let ?s1 = "seatedAt 0 0 ?s0"
  have r2: "replicate 2 (- 1 :: int) = [- 1, - 1]" "replicate 2 TOARRIVE = [TOARRIVE, TOARRIVE]"
    by (simp_all add: numeral_2_eq_2)
  have h: "semgid_ok ?s0" "0 < sem ?s0 Mutex"
    "inRange 0 (assignedTable (fSt ?s0))" "inRange 0 (groupRecord ?s0)"
    by (simp_all add: inRange_def)
  have b: "(0::int) = - 1 \<longrightarrow> groupsWaiting (fSt ?s0) < INT_MAX" by simp
  from provideTableOrWaitingRoom_post [OF h decide_initState_2_2 b]
  obtain s5 where 1: "provideTableOrWaitingRoom 1 0 ?s0 =
        Inr (s5\<lparr>sem := (sem s5)(Mutex := sem s5 Mutex + 1)\<rparr>)"
    and 2: "sem s5 Mutex = sem ?s0 Mutex - 1"
    "assignedTable (fSt s5) = (assignedTable (fSt ?s0))[nat 0 := 0]"
    "groupRecord s5 = (groupRecord ?s0)[nat 0 := ATTABLE]"
    "sem s5 (WaitForTable 0) = sem ?s0 (WaitForTable 0) + 1"
    "groupsWaiting (fSt s5) = groupsWaiting (fSt ?s0)"
    by auto
  have seat: "\<exists>s'. provideTableOrWaitingRoom 1 0 ?s0 = Inr s' \<and>
      assignedTable (fSt s') = [0, - 1] \<and> groupRecord s' = [ATTABLE, TOARRIVE] \<and>
      groupsWaiting (fSt s') = 0 \<and>
      sem s' (WaitForTable 0) = 1 \<and> sem s' Mutex = 1"
    unfolding 1 using 2 by (simp add: r2)
  have a: "arraysFit ?s1" by (simp add: arraysFit_initState)
  have "\<forall>k::int. 0 \<le> k \<and> k < 1 \<longrightarrow> k \<in> set (heldTables ?s1)"
    by (simp add: held_init2)
  with a have d: "decideTableOrWait 1 1 ?s1 = Inr (- 1)" by (rule decide_is_none)
  have h1: "semgid_ok ?s1" "0 < sem ?s1 Mutex"
    "inRange 1 (assignedTable (fSt ?s1))" "inRange 1 (groupRecord ?s1)"
    by (simp_all add: inRange_def)
  have b1: "(- 1::int) = - 1 \<longrightarrow> groupsWaiting (fSt ?s1) < INT_MAX"
    by (simp add: INT_MAX_def)
  from provideTableOrWaitingRoom_post [OF h1 d b1]
  obtain s6 where 3: "provideTableOrWaitingRoom 1 1 ?s1 =
        Inr (s6\<lparr>sem := (sem s6)(Mutex := sem s6 Mutex + 1)\<rparr>)"
    and 4: "sem s6 Mutex = sem ?s1 Mutex - 1"
    "groupsWaiting (fSt s6) = groupsWaiting (fSt ?s1) + 1"
    "groupRecord s6 = (groupRecord ?s1)[nat 1 := WAIT]"
    "assignedTable (fSt s6) = assignedTable (fSt ?s1)"
    "\<forall>m. sem s6 (WaitForTable m) = sem ?s1 (WaitForTable m)"
    by auto
  have queue: "\<exists>s'. provideTableOrWaitingRoom 1 1 ?s1 = Inr s' \<and>
      assignedTable (fSt s') = [0, - 1] \<and> groupRecord s' = [ATTABLE, WAIT] \<and>
      groupsWaiting (fSt s') = 1 \<and>
      sem s' (WaitForTable 1) = 0 \<and> sem s' Mutex = 1"
    unfolding 3 using 4 by (simp add: r2)
  from seat queue show ?thesis by blast
qed

text \<open>
  C4 (\<open>receivePayment\<close>). Let the arrays hold the configured groups, the
  semaphore set be valid, the mutex free, let group \<open>n\<close> hold table \<open>t\<close>, and
  let \<open>groupsWaiting\<close> be strictly between \<open>INT_MIN\<close> and \<open>INT_MAX\<close>. Then, in
  the state \<open>s7\<close> in which the operation has left its critical section, the
  semaphore \<open>tableDone[t]\<close> has been raised by one and every other semaphore, the
  mutex too, is as before; \<open>assignedTable[n]\<close> is \<open>-1\<close> and \<open>groupRecord[n]\<close> is
  DONE. \<open>decideNextGroup\<close> then answers some \<open>g\<close>: if \<open>g\<close> is a group,
  \<open>provideTableOrWaitingRoom\<close> is run for \<open>g\<close> from \<open>s7\<close> and returns a state
  \<open>s8\<close> whose counter is an int above \<open>INT_MIN\<close>, and the result is \<open>s8\<close> with
  \<open>groupsWaiting\<close> one less; if no group waits, the result is \<open>s7\<close> itself.
\<close>

theorem receivePayment_post:
  assumes "arraysFit s" "semgid_ok s" "0 < sem s Mutex"
    "inRange n (assignedTable (fSt s))"
    "assignedTable (fSt s) ! nat n = t" "0 \<le> t" "t < NT"
    "INT_MIN < groupsWaiting (fSt s)" "groupsWaiting (fSt s) < INT_MAX"
  shows "\<exists>s7 g.
     sem s7 = (sem s)(TableDone t := sem s (TableDone t) + 1) \<and>
     assignedTable (fSt s7) = (assignedTable (fSt s))[nat n := - 1] \<and>
     groupRecord s7 = (groupRecord s)[nat n := DONE] \<and>
     groupsWaiting (fSt s7) = groupsWaiting (fSt s) \<and>
     nGroups (fSt s7) = nGroups (fSt s) \<and>
     decideNextGroup s7 = Inr g \<and>
     (if g \<noteq> - 1 then
        \<exists>s8. provideTableOrWaitingRoom NT g s7 = Inr s8 \<and>
          INT_MIN < groupsWaiting (fSt s8) \<and> groupsWaiting (fSt s8) \<le> INT_MAX \<and>
          receivePayment NT n s =
            Inr (s8\<lparr>fSt := (fSt s8)\<lparr>groupsWaiting := groupsWaiting (fSt s8) - 1\<rparr>\<rparr>)
      else receivePayment NT n s = Inr s7)"
proof -
  have rg: "inRange n (groupRecord s)"
    using assms(1,4) by (simp add: arraysFit_def inRange_def)
  have t: "0 \<le> assignedTable (fSt s) ! nat n" "assignedTable (fSt s) ! nat n < NT"
    using assms(5-7) by simp_all
  note r = receivePayment_ok [OF assms(2,3,4) rg t]
  have a: "arraysFit (vacated n s)" using assms(1) by simp
  from nextGroup_total [OF a] obtain g where g: "decideNextGroup (vacated n s) = Inr g"
    and b: "g = - 1 \<or> 0 \<le> g \<and> g < nGroups (fSt (vacated n s))" by blast
  have f: "sem (vacated n s) = (sem s)(TableDone t := sem s (TableDone t) + 1)"
    "assignedTable (fSt (vacated n s)) = (assignedTable (fSt s))[nat n := - 1]"
    "groupRecord (vacated n s) = (groupRecord s)[nat n := DONE]"
    "groupsWaiting (fSt (vacated n s)) = groupsWaiting (fSt s)"
    "nGroups (fSt (vacated n s)) = nGroups (fSt s)"
    using assms(5) by (simp_all add: vacated_def)
  have "if g \<noteq> - 1 then
        \<exists>s8. provideTableOrWaitingRoom NT g (vacated n s) = Inr s8 \<and>
          INT_MIN < groupsWaiting (fSt s8) \<and> groupsWaiting (fSt s8) \<le> INT_MAX \<and>
          receivePayment NT n s =
            Inr (s8\<lparr>fSt := (fSt s8)\<lparr>groupsWaiting := groupsWaiting (fSt s8) - 1\<rparr>\<rparr>)
      else receivePayment NT n s = Inr (vacated n s)"
  proof (cases "g = - 1")
    case True
    with r g show ?thesis by simp
  next
    case False
    with b have "inRange g (assignedTable (fSt (vacated n s)))" "inRange g (groupRecord (vacated n s))"
      using arraysFit_inRange [OF a] by simp_all
    moreover have "semgid_ok (vacated n s)" "0 < sem (vacated n s) Mutex"
      using assms(2,3) by (simp_all add: vacated_def)
    ultimately obtain s8 where p: "provideTableOrWaitingRoom NT g (vacated n s) = Inr s8"
      using provide_total [OF a, of g NT] by blast
    from p have "groupsWaiting (fSt s8) = groupsWaiting (fSt s) \<or>
        groupsWaiting (fSt s8) = groupsWaiting (fSt s) + 1"
      by (cases rule: provide_Inr_cases) simp_all
    with assms(8,9) have "INT_MIN < groupsWaiting (fSt s8)" "groupsWaiting (fSt s8) \<le> INT_MAX"
      by auto
    with p r g False show ?thesis by (simp add: paidUp_def)
  qed
  with f g show ?thesis by blast
qed

lemma twoWaiting_ready:
  "semgid_ok twoWaiting" "0 < sem twoWaiting Mutex"
  "assignedTable (fSt twoWaiting) = [- 1, 0, - 1, - 1]"
  "groupRecord twoWaiting = [DONE, ATTABLE, WAIT, WAIT]"
  "groupsWaiting (fSt twoWaiting) = 2"
  by (simp_all add: twoWaiting_def initState_def)

theorem receivePayment_post_witness:
  "\<exists>s7 s8. assignedTable (fSt s7) = [- 1, - 1, - 1, - 1] \<and>
     groupRecord s7 = [DONE, DONE, WAIT, WAIT] \<and>
     sem s7 (TableDone 0) = 1 \<and> sem s7 Mutex = 1 \<and>
     groupsWaiting (fSt s7) = 2 \<and>
     decideNextGroup s7 = Inr 2 \<and>
     provideTableOrWaitingRoom 1 2 s7 = Inr s8 \<and>
     receivePayment 1 1 twoWaiting =
       Inr (s8\<lparr>fSt := (fSt s8)\<lparr>groupsWaiting := groupsWaiting (fSt s8) - 1\<rparr>\<rparr>)"
proof -
  have h: "inRange 1 (assignedTable (fSt twoWaiting))"
    "assignedTable (fSt twoWaiting) ! nat 1 = 0"
    by (simp_all add: twoWaiting_ready inRange_def)
  have z: "(0::int) \<le> 0" "(0::int) < 1" by simp_all
  have c: "INT_MIN < groupsWaiting (fSt twoWaiting)" "groupsWaiting (fSt twoWaiting) < INT_MAX"
    by (simp_all add: twoWaiting_ready INT_MIN_def INT_MAX_def)
  from receivePayment_post [OF arraysFit_twoWaiting twoWaiting_ready(1,2) h z c]
  obtain s7 g where
    1: "sem s7 = (sem twoWaiting)(TableDone 0 := sem twoWaiting (TableDone 0) + 1)"
    and 2: "assignedTable (fSt s7) = (assignedTable (fSt twoWaiting))[nat 1 := - 1]"
    and 3: "groupRecord s7 = (groupRecord twoWaiting)[nat 1 := DONE]"
    and 4: "nGroups (fSt s7) = nGroups (fSt twoWaiting)"
    and 5: "decideNextGroup s7 = Inr g"
    and 6: "if g \<noteq> - 1 then
        \<exists>s8. provideTableOrWaitingRoom 1 g s7 = Inr s8 \<and>
          INT_MIN < groupsWaiting (fSt s8) \<and> groupsWaiting (fSt s8) \<le> INT_MAX \<and>
          receivePayment 1 1 twoWaiting =
            Inr (s8\<lparr>fSt := (fSt s8)\<lparr>groupsWaiting := groupsWaiting (fSt s8) - 1\<rparr>\<rparr>)
      else receivePayment 1 1 twoWaiting = Inr s7"
    and 10: "groupsWaiting (fSt s7) = groupsWaiting (fSt twoWaiting)"
    by blast
  have 7: "sem s7 (TableDone 0) = 1" "sem s7 Mutex = 1"
    unfolding 1 by (simp_all add: twoWaiting_def initState_def)
  have 8: "assignedTable (fSt s7) = [- 1, - 1, - 1, - 1]" "groupRecord s7 = [DONE, DONE, WAIT, WAIT]"
    unfolding 2 3 by (simp_all add: twoWaiting_ready)
  have 9: "nGroups (fSt s7) = 4" unfolding 4 by (simp add: twoWaiting_def)
  have 11: "groupsWaiting (fSt s7) = 2" unfolding 10 by (simp add: twoWaiting_ready)
  have a: "arraysFit s7" by (simp add: arraysFit_def 8 9)
  have "\<forall>j::int. 0 \<le> j \<and> j < 2 \<longrightarrow> groupRecord s7 ! nat j \<noteq> WAIT"
  proof (intro allI impI)
    fix j :: int assume "0 \<le> j \<and> j < 2"
    then have "j = 0 \<or> j = 1" by arith
    then show "groupRecord s7 ! nat j \<noteq> WAIT" unfolding 8 by auto
  qed
  then have "decideNextGroup s7 = Inr 2"
    using a by (intro nextGroup_is) (simp_all add: 8 9)
  with 5 have g: "g = 2" by simp
  with 6 obtain s8 where "provideTableOrWaitingRoom 1 2 s7 = Inr s8"
    "receivePayment 1 1 twoWaiting =
       Inr (s8\<lparr>fSt := (fSt s8)\<lparr>groupsWaiting := groupsWaiting (fSt s8) - 1\<rparr>\<rparr>)"
    by auto
  with 5 g 7 8 11 show ?thesis by blast
qed

text \<open>
  C9 (what \<open>receivePayment\<close> needs). \<open>tableDone\<close> is indexed with
  \<open>assignedTable[n]\<close> with no check. With a valid semaphore set, a free mutex and
  \<open>n\<close> an index of the arrays, the operation returns a state exactly when group
  \<open>n\<close> holds a table, that is \<open>assignedTable[n]\<close> is in \<open>[0, NT)\<close>; otherwise,
  and so for the value \<open>-1\<close> of a group without a table, it takes the
  out-of-range branch.
\<close>

theorem receivePayment_needs_table:
  assumes "arraysFit s" "semgid_ok s" "0 < sem s Mutex"
    "inRange n (assignedTable (fSt s))"
  shows "if 0 \<le> assignedTable (fSt s) ! nat n \<and> assignedTable (fSt s) ! nat n < NT
     then \<exists>s'. receivePayment NT n s = Inr s'
     else receivePayment NT n s = Inl OutOfBounds"
proof (cases "0 \<le> assignedTable (fSt s) ! nat n \<and> assignedTable (fSt s) ! nat n < NT")
  case True
  have "inRange n (groupRecord s)"
    using assms(1,4) by (simp add: arraysFit_def inRange_def)
  with True assms have "\<exists>s'. receivePayment NT n s = Inr s'"
    by (intro receivePayment_total) simp_all
  with True show ?thesis by simp
next
  case False
  with receivePayment_no_table [OF assms(2-4), of NT] show ?thesis by simp
qed

theorem receivePayment_needs_table_witness:
  "receivePayment 1 2 twoWaiting = Inl OutOfBounds \<and>
   (\<exists>s'. receivePayment 1 1 twoWaiting = Inr s')"
proof -
  have h: "inRange 2 (assignedTable (fSt twoWaiting))" "inRange 1 (assignedTable (fSt twoWaiting))"
    by (simp_all add: twoWaiting_ready inRange_def)
  from receivePayment_needs_table [OF arraysFit_twoWaiting twoWaiting_ready(1,2) h(1), of 1]
  have "receivePayment 1 2 twoWaiting = Inl OutOfBounds"
    by (simp add: twoWaiting_ready)
  moreover
  from receivePayment_needs_table [OF arraysFit_twoWaiting twoWaiting_ready(1,2) h(2), of 1]
  have "\<exists>s'. receivePayment 1 1 twoWaiting = Inr s'"
    by (simp add: twoWaiting_ready)
  ultimately show ?thesis by simp
qed

text \<open>
  C5 (\<open>waitForGroup\<close>). With a valid semaphore set, a free mutex and a request
  pending, \<open>waitForGroup\<close> returns exactly the request found in the shared slot,
  and in the state it returns the slot holds \<open>reqType = -1, reqGroup = -1\<close>.
  Whatever the receptionist then runs, the slot still reads empty: only a
  group's post can fill it.
\<close>

theorem waitForGroup_returns_posted_request:
  assumes "semgid_ok s" "0 < sem s Mutex" "0 < sem s ReceptionistReq"
  shows "\<exists>s'. waitForGroup s = Inr (receptionistRequest (fSt s), s') \<and>
     receptionistRequest (fSt s') = emptyRequest \<and>
     (\<forall>ops s''. run NT ops s' = Inr s'' \<longrightarrow> receptionistRequest (fSt s'') = emptyRequest)"
proof -
  have e: "receptionistRequest (fSt (consumed s)) = emptyRequest"
    by (simp add: consumed_def)
  then have "\<forall>ops s''. run NT ops (consumed s) = Inr s'' \<longrightarrow>
      receptionistRequest (fSt s'') = emptyRequest"
    by (blast intro: run_request_empty)
  with waitForGroup_ok [OF assms] e show ?thesis by blast
qed

theorem waitForGroup_returns_posted_request_witness:
  "\<exists>s' s''. waitForGroup requestPending = Inr (\<lparr>reqType = 1, reqGroup = 0\<rparr>, s') \<and>
     receptionistRequest (fSt s') = \<lparr>reqType = - 1, reqGroup = - 1\<rparr> \<and>
     run 1 [ProvideTableOrWaitingRoom 0] s' = Inr s'' \<and>
     receptionistRequest (fSt s'') = \<lparr>reqType = - 1, reqGroup = - 1\<rparr>"
proof -
  have h: "semgid_ok requestPending" "0 < sem requestPending Mutex"
    "0 < sem requestPending ReceptionistReq"
    by (simp_all add: requestPending_def initState_def)
  have r: "receptionistRequest (fSt requestPending) = \<lparr>reqType = 1, reqGroup = 0\<rparr>"
    by (simp add: requestPending_def)
  from waitForGroup_returns_posted_request [OF h, of 1]
  obtain s' where 1: "waitForGroup requestPending = Inr (\<lparr>reqType = 1, reqGroup = 0\<rparr>, s')"
    and 2: "receptionistRequest (fSt s') = \<lparr>reqType = - 1, reqGroup = - 1\<rparr>"
    and 3: "\<forall>ops s''. run 1 ops s' = Inr s'' \<longrightarrow>
       receptionistRequest (fSt s'') = \<lparr>reqType = - 1, reqGroup = - 1\<rparr>"
    unfolding r emptyRequest_def by blast
  from waitForGroup_Inr [OF 1] have s': "s' = consumed requestPending" by simp
  have f: "nGroups (fSt requestPending) = 2" "assignedTable (fSt requestPending) = [- 1, - 1]"
    "groupRecord requestPending = [TOARRIVE, TOARRIVE]"
    by (simp_all add: requestPending_def initState_def numeral_2_eq_2)
  have a: "arraysFit s'" unfolding s' by (simp add: arraysFit_def f)
  have "decideTableOrWait 1 0 s' = Inr 0"
    using a by (intro decide_is) (simp_all add: s' heldTables_def f)
  then have "provideTableOrWaitingRoom 1 0 s' = Inr (seatedAt 0 0 s')"
    by (intro provide_seat) (simp_all add: s' h f inRange_def)
  then have 4: "run 1 [ProvideTableOrWaitingRoom 0] s' = Inr (seatedAt 0 0 s')" by simp
  with 3 have "receptionistRequest (fSt (seatedAt 0 0 s')) = \<lparr>reqType = - 1, reqGroup = - 1\<rparr>"
    by blast
  with 1 2 4 show ?thesis by blast
qed

subsection \<open>Invariants and the scenario\<close>

text \<open>
  C1 (table uniqueness). From a state in which the arrays hold the configured
  groups and the groups' table entries are unique, as in the initial state
  (\<open>arraysFit_initState\<close>, \<open>tablesUnique_initState\<close>), every state reached by any
  sequence of \<open>waitForGroup\<close>, \<open>provideTableOrWaitingRoom\<close> and
  \<open>receivePayment\<close>, with any arguments, has the entries of \<open>assignedTable\<close> of
  the groups \<open>0 .. nGroups - 1\<close> that are not \<open>-1\<close> pairwise distinct, each of
  them in \<open>[0, NT)\<close>.
\<close>

theorem table_uniqueness_invariant:
  assumes "arraysFit s0" "tablesUnique NT s0" "run NT ops s0 = Inr s"
  shows "distinct (filter (\<lambda>t. t \<noteq> - 1) (heldTables s)) \<and>
     (\<forall>t \<in> set (heldTables s). t \<noteq> - 1 \<longrightarrow> 0 \<le> t \<and> t < NT)"
  using run_tablesUnique [OF assms] by (simp add: tablesUnique_def)


theorem table_uniqueness_invariant_witness:
  "\<exists>s. run 1 scenarioA (initState 2 2) = Inr s \<and> heldTables s = [- 1, 0] \<and>
     distinct (filter (\<lambda>t. t \<noteq> - 1) (heldTables s)) \<and>
     (\<forall>t \<in> set (heldTables s). t \<noteq> - 1 \<longrightarrow> 0 \<le> t \<and> t < 1)"
proof -
  let ?s = "paidUp (seatedAt 1 0 (vacated 0 (queued 1 (seatedAt 0 0 (initState 2 2)))))"
  have r: "run 1 scenarioA (initState 2 2) = Inr ?s" by (simp add: scenario_run)
  have a: "arraysFit (initState 2 2)" by (simp add: arraysFit_initState)
  have h: "heldTables ?s = [- 1, 0]" by (simp add: held_init2)
  from table_uniqueness_invariant [OF a tablesUnique_initState r] r h
  show ?thesis by blast
qed

text \<open>
  C8 (Scenario A). Two groups, one table, arrays of any size \<open>mg\<close> of at least
  two. From the initial state \<open>provideTableOrWaitingRoom(0)\<close> seats group 0 at
  table 0; then \<open>provideTableOrWaitingRoom(1)\<close> finds no table and queues group 1,
  with \<open>groupsWaiting = 1\<close>; then \<open>receivePayment(0)\<close> raises \<open>tableDone[0]\<close>,
  clears the entry of group 0 and records it DONE, and gives table 0 to group 1,
  now seated and released, with \<open>groupsWaiting = 0\<close>.
\<close>

theorem scenario_A:
  assumes "2 \<le> mg"
  shows "\<exists>s1 s2 s3.
     provideTableOrWaitingRoom 1 0 (initState mg 2) = Inr s1 \<and>
       heldTables s1 = [0, - 1] \<and> records s1 = [ATTABLE, TOARRIVE] \<and>
       groupsWaiting (fSt s1) = 0 \<and>
     provideTableOrWaitingRoom 1 1 s1 = Inr s2 \<and>
       heldTables s2 = [0, - 1] \<and> records s2 = [ATTABLE, WAIT] \<and>
       groupsWaiting (fSt s2) = 1 \<and>
     receivePayment 1 0 s2 = Inr s3 \<and>
       heldTables s3 = [- 1, 0] \<and> records s3 = [DONE, ATTABLE] \<and>
       groupsWaiting (fSt s3) = 0 \<and>
       sem s3 (TableDone 0) = 1 \<and> sem s3 (WaitForTable 0) = 1 \<and>
       sem s3 (WaitForTable 1) = 1 \<and>
     run 1 scenarioA (initState mg 2) = Inr s3"
proof -
  let ?s1 = "seatedAt 0 0 (initState mg 2)"
  let ?s2 = "queued 1 ?s1"
  let ?s3 = "paidUp (seatedAt 1 0 (vacated 0 ?s2))"
  have 1: "heldTables ?s1 = [0, - 1]" "records ?s1 = [ATTABLE, TOARRIVE]"
    "groupsWaiting (fSt ?s1) = 0"
    using assms by (simp_all add: held_init2 records_init2)
  have 2: "heldTables ?s2 = [0, - 1]" "records ?s2 = [ATTABLE, WAIT]"
    "groupsWaiting (fSt ?s2) = 1"
    using assms by (simp_all add: held_init2 records_init2)
  have 3: "heldTables ?s3 = [- 1, 0]" "records ?s3 = [DONE, ATTABLE]"
    "groupsWaiting (fSt ?s3) = 0"
    using assms by (simp_all add: held_init2 records_init2)
  have 4: "sem ?s3 (TableDone 0) = 1" "sem ?s3 (WaitForTable 0) = 1"
    "sem ?s3 (WaitForTable 1) = 1"
    using assms by simp_all
  show ?thesis
    using scenario_step1 [OF assms] scenario_step2 [OF assms] scenario_step3 [OF assms]
      scenario_run [OF assms] 1 2 3 4
    by blast
qed

theorem scenario_A_witness:
  "\<exists>s3. run 1 scenarioA (initState 2 2) = Inr s3 \<and>
     heldTables s3 = [- 1, 0] \<and> records s3 = [DONE, ATTABLE] \<and> groupsWaiting (fSt s3) = 0"
proof -
  have "(2::nat) \<le> 2" by simp
  from scenario_A [OF this] show ?thesis by blast
qed

text \<open>
  Outside the protocol of the groups the counter can drift: when a group that
  already waits is offered to \<open>provideTableOrWaitingRoom\<close> again, \<open>groupsWaiting\<close>
  is incremented a second time for the same group.
\<close>

lemma waiting_count_needs_protocol:
  "\<exists>s. run 1 [ProvideTableOrWaitingRoom 0, ProvideTableOrWaitingRoom 1,
              ProvideTableOrWaitingRoom 1] (initState 2 2) = Inr s \<and>
     groupsWaiting (fSt s) = 2 \<and> waitingGroups s = 1"
proof -
  let ?s2 = "queued 1 (seatedAt 0 0 (initState 2 2))"
  have m: "(2::nat) \<le> 2" by simp
  have a: "arraysFit ?s2" by (simp add: arraysFit_initState)
  have h: "heldTables ?s2 = [0, - 1]" by (simp add: held_init2)
  have "\<forall>k::int. 0 \<le> k \<and> k < 1 \<longrightarrow> k \<in> set (heldTables ?s2)"
    unfolding h by auto
  with a have "decideTableOrWait 1 1 ?s2 = Inr (- 1)" by (rule decide_is_none)
  then have "provideTableOrWaitingRoom 1 1 ?s2 = Inr (queued 1 ?s2)"
    by (intro provide_wait) (simp_all add: inRange_def)
  then have "run 1 [ProvideTableOrWaitingRoom 0, ProvideTableOrWaitingRoom 1,
              ProvideTableOrWaitingRoom 1] (initState 2 2) = Inr (queued 1 ?s2)"
    by (simp add: scenario_step1 [OF m] scenario_step2 [OF m])
  moreover have "groupsWaiting (fSt (queued 1 ?s2)) = 2" by simp
  moreover have "waitingGroups (queued 1 ?s2) = 1"
    by (simp add: waitingGroups_def records_init2)
  ultimately show ?thesis by blast
qed

text \<open>
  C2 (waiting count). Start from a state between operations in which the counter
  is right (\<open>quiescent\<close>; the initial state is one, \<open>quiescent_initState\<close>), and
  run any sequence of receptionist operations that the groups can ask for: a
  table for a group that is arriving, the bill for a group that is seated. If the
  sequence returns, then in the state reached \<open>groupsWaiting\<close> is the number of
  groups \<open>0 .. nGroups - 1\<close> whose \<open>groupRecord\<close> is WAIT. Moreover, for every
  further such operation that returns, \<open>groupsWaiting\<close> grows by one exactly when
  \<open>provideTableOrWaitingRoom\<close> has left the group's record at WAIT, drops by one
  exactly when \<open>receivePayment\<close> has turned the record of a waiting group into
  ATTABLE, and is unchanged otherwise.
\<close>

theorem waiting_count_consistent:
  assumes "quiescent NT s0" "conformant NT ops s0" "run NT ops s0 = Inr s"
  shows "groupsWaiting (fSt s) = int (waitingGroups s) \<and>
     (\<forall>x s'. requested x s \<longrightarrow> applyOp NT x s = Inr s' \<longrightarrow>
        groupsWaiting (fSt s') = groupsWaiting (fSt s) + waitingChange x s s')"
proof -
  from run_quiescent [OF assms] have q: "quiescent NT s" .
  then have "groupsWaiting (fSt s) = int (waitingGroups s)" by (simp add: quiescent_def)
  moreover have "\<forall>x s'. requested x s \<longrightarrow> applyOp NT x s = Inr s' \<longrightarrow>
        groupsWaiting (fSt s') = groupsWaiting (fSt s) + waitingChange x s s'"
    using applyOp_quiescent [OF q] by blast
  ultimately show ?thesis by simp
qed

theorem waiting_count_consistent_witness:
  "\<exists>s s'. run 1 [ProvideTableOrWaitingRoom 0, ProvideTableOrWaitingRoom 1] (initState 2 2) = Inr s \<and>
     groupsWaiting (fSt s) = 1 \<and> waitingGroups s = 1 \<and>
     receivePayment 1 0 s = Inr s' \<and> reassigned s s' \<and>
     groupsWaiting (fSt s') = 0 \<and> waitingGroups s' = 0"
proof -
  let ?s0 = "initState 2 2"
  let ?s1 = "seatedAt 0 0 ?s0"
  let ?s2 = "queued 1 ?s1"
  let ?s3 = "paidUp (seatedAt 1 0 (vacated 0 ?s2))"
  have m: "(2::nat) \<le> 2" by simp
  note st = scenario_step1 [OF m] scenario_step2 [OF m] scenario_step3 [OF m]
  have q: "quiescent 1 ?s0" by (simp add: quiescent_initState)
  have r: "run 1 [ProvideTableOrWaitingRoom 0, ProvideTableOrWaitingRoom 1] ?s0 = Inr ?s2"
    by (simp add: st)
  have r2: "replicate 2 TOARRIVE = [TOARRIVE, TOARRIVE]" by (simp add: numeral_2_eq_2)
  have c: "conformant 1 [ProvideTableOrWaitingRoom 0, ProvideTableOrWaitingRoom 1] ?s0"
    by (simp add: st r2)
  have p: "requested (ReceivePayment 0) ?s2" by (simp add: r2)
  have a: "applyOp 1 (ReceivePayment 0) ?s2 = Inr ?s3" by (simp add: st)
  have rs: "records ?s2 = [ATTABLE, WAIT]" "records ?s3 = [DONE, ATTABLE]"
    by (simp_all add: records_init2)
  have re: "reassigned ?s2 ?s3" unfolding reassigned_def rs by simp
  from waiting_count_consistent [OF q c r]
  have 1: "groupsWaiting (fSt ?s2) = int (waitingGroups ?s2)"
    and 2: "groupsWaiting (fSt ?s3) = groupsWaiting (fSt ?s2) + waitingChange (ReceivePayment 0) ?s2 ?s3"
    using p a by blast+
  have w: "waitingGroups ?s2 = 1" "waitingGroups ?s3 = 0"
    unfolding waitingGroups_def rs by simp_all
  from 1 2 w re have "groupsWaiting (fSt ?s2) = 1" "groupsWaiting (fSt ?s3) = 0" by simp_all
  with r st(3) re w show ?thesis by blast
qed

end
